theory Spec2Isabelle
  imports Main "HOL-Library.AList" "HOL-Library.Multiset"
begin

section \<open>Data model (app/models.py)\<close>

text \<open>
  The enumerations \<open>ActivityStatus\<close> and \<open>RiskLevel\<close> of app/models.py. Both are string
  enumerations; \<open>status_value\<close> is the \<open>.value\<close> of a status.
\<close>

datatype ActivityStatus = NOT_STARTED | IN_PROGRESS | COMPLETED | DELAYED

datatype RiskLevel = LOW | MEDIUM | HIGH | CRITICAL

fun status_value :: "ActivityStatus \<Rightarrow> string" where
  "status_value NOT_STARTED = ''not_started''"
| "status_value IN_PROGRESS = ''in_progress''"
| "status_value COMPLETED = ''completed''"
| "status_value DELAYED = ''delayed''"

text \<open>
  \<open>ScheduleActivity\<close>: the fields the risk engine reads. The field \<open>id\<close> of the source is
  \<open>act_id\<close> here. \<open>duration_days\<close> is declared \<open>int\<close> with \<open>Field(ge=0)\<close>, so an activity
  never carries a negative duration: it is a natural number. The dates, \<open>successors\<close> and
  \<open>resource_hours\<close> are never read by the engine and are left out.
\<close>

record ScheduleActivity =
  act_id :: string
  name :: string
  duration_days :: nat
  status :: ActivityStatus
  predecessors :: "string list"
  trade :: "string option"

text \<open>
  \<open>ScheduleInput\<close>: the engine reads only the list of activities (field \<open>activities\<close> of
  the source, \<open>sched_activities\<close> here; the validator requires at least one activity).
\<close>

record ScheduleInput =
  project_name :: string
  sched_activities :: "ScheduleActivity list"

text \<open>\<open>CriticalPathInfo\<close>, with its defaults: no bottleneck, and the medium risk level.\<close>

record CriticalPathInfo =
  path_activities :: "string list"
  total_duration_days :: nat
  bottleneck_activity :: "string option"
  path_risk_level :: RiskLevel

section \<open>The directed graph (networkx.DiGraph, as the engine uses it)\<close>

text \<open>
  The attributes \<open>build_graph\<close> attaches to a node: \<open>name\<close>, \<open>duration\<close>, \<open>trade\<close>
  and \<open>status\<close>.
\<close>

record node_attrs =
  attr_name :: string
  attr_duration :: nat
  attr_trade :: string
  attr_status :: string

text \<open>
  A \<open>DiGraph\<close> keeps its nodes and, for every node, its successors in dictionaries, hence in
  insertion order and without duplicates. The model keeps the nodes as an association list
  (keys in insertion order) and the edges as the list of pairs in insertion order; the
  successors of a node in the order of \<open>G.edges(node)\<close> are then the targets of its edges in
  that order.
\<close>

record DiGraph =
  nodes :: "(string \<times> node_attrs) list"
  edges :: "(string \<times> string) list"

definition empty_graph :: DiGraph where
  "empty_graph = \<lparr>nodes = [], edges = []\<rparr>"

definition node_ids :: "DiGraph \<Rightarrow> string list" where
  "node_ids G = map fst (nodes G)"

text \<open>
  \<open>G.add_node(n, **attrs)\<close>: a new node goes to the end; for a node already there the
  attributes are overwritten (all four keys are given at every call) and the node keeps its
  place.
\<close>

definition add_node :: "DiGraph \<Rightarrow> string \<Rightarrow> node_attrs \<Rightarrow> DiGraph" where
  "add_node G n a = G\<lparr>nodes := AList.update n a (nodes G)\<rparr>"

text \<open>
  \<open>G.add_edge(u, v)\<close> between two nodes of the graph: an edge already there stays where it
  is. (networkx would also create a missing end point; \<open>build_graph\<close> only adds edges
  between identifiers of activities, which are nodes already, see \<open>wf_built_graph\<close>.)
\<close>

definition add_edge :: "DiGraph \<Rightarrow> string \<Rightarrow> string \<Rightarrow> DiGraph" where
  "add_edge G u v = (if (u, v) \<in> set (edges G) then G else G\<lparr>edges := edges G @ [(u, v)]\<rparr>)"

definition successors :: "DiGraph \<Rightarrow> string \<Rightarrow> string list" where
  "successors G v = map snd (filter (\<lambda>e. fst e = v) (edges G))"

definition in_degree :: "DiGraph \<Rightarrow> string \<Rightarrow> nat" where
  "in_degree G v = length (filter (\<lambda>e. snd e = v) (edges G))"

definition out_degree :: "DiGraph \<Rightarrow> string \<Rightarrow> nat" where
  "out_degree G v = length (filter (\<lambda>e. fst e = v) (edges G))"

section \<open>The engine and build\_graph (app/services/risk\_engine.py)\<close>

text \<open>
  The state of a \<open>RiskEngine\<close>: the graph (\<open>None\<close> until one is built) and the dictionary
  of the activities by identifier, an association list in insertion order.
\<close>

record RiskEngine =
  graph :: "DiGraph option"
  activities :: "(string \<times> ScheduleActivity) list"

definition init_engine :: RiskEngine where
  "init_engine = \<lparr>graph = None, activities = []\<rparr>"

text \<open>\<open>k in d\<close> and \<open>d.get(k)\<close> for a dictionary kept as an association list.\<close>

definition dict_in :: "'k \<Rightarrow> ('k \<times> 'v) list \<Rightarrow> bool" where
  "dict_in k d = (k \<in> set (map fst d))"

text \<open>\<open>activity.trade or "general"\<close>: \<open>None\<close> and the empty string are both falsy.\<close>

definition trade_or_general :: "string option \<Rightarrow> string" where
  "trade_or_general t = (case t of None \<Rightarrow> ''general'' | Some s \<Rightarrow> if s = [] then ''general'' else s)"

definition attrs_of :: "ScheduleActivity \<Rightarrow> node_attrs" where
  "attrs_of a = \<lparr>attr_name = name a, attr_duration = duration_days a,
                 attr_trade = trade_or_general (trade a), attr_status = status_value (status a)\<rparr>"

text \<open>The dictionary comprehension \<open>{a.id: a for a in schedule.activities}\<close>.\<close>

definition index_activities :: "ScheduleActivity list \<Rightarrow> (string \<times> ScheduleActivity) list" where
  "index_activities acts = fold (\<lambda>a d. AList.update (act_id a) a d) acts []"

text \<open>The first loop of \<open>build_graph\<close>: one \<open>add_node\<close> for each activity.\<close>

definition add_nodes :: "ScheduleActivity list \<Rightarrow> DiGraph \<Rightarrow> DiGraph" where
  "add_nodes acts G = fold (\<lambda>a G. add_node G (act_id a) (attrs_of a)) acts G"

text \<open>
  The second loop: for each activity, for each declared predecessor that is a key of the
  index, the edge from the predecessor to the activity.
\<close>

definition add_pred_edges ::
  "(string \<times> ScheduleActivity) list \<Rightarrow> ScheduleActivity \<Rightarrow> DiGraph \<Rightarrow> DiGraph" where
  "add_pred_edges idx a G =
     fold (\<lambda>pred_id G. if dict_in pred_id idx then add_edge G pred_id (act_id a) else G)
       (predecessors a) G"

definition add_edges :: "(string \<times> ScheduleActivity) list \<Rightarrow> ScheduleActivity list \<Rightarrow> DiGraph \<Rightarrow> DiGraph" where
  "add_edges idx acts G = fold (add_pred_edges idx) acts G"

text \<open>
  \<open>build_graph\<close> overwrites both fields of the engine and returns the graph: the result is
  the graph and the engine after the call.
\<close>

definition build_graph :: "RiskEngine \<Rightarrow> ScheduleInput \<Rightarrow> DiGraph \<times> RiskEngine" where
  "build_graph self schedule =
     (let idx = index_activities (sched_activities schedule);
          G = add_edges idx (sched_activities schedule)
                (add_nodes (sched_activities schedule) empty_graph)
      in (G, self\<lparr>graph := Some G, activities := idx\<rparr>))"

text \<open>The engine of a request: a fresh \<open>RiskEngine()\<close> on which \<open>build_graph\<close> has run.\<close>

definition built :: "ScheduleInput \<Rightarrow> RiskEngine" where
  "built schedule = snd (build_graph init_engine schedule)"

definition built_graph :: "ScheduleInput \<Rightarrow> DiGraph" where
  "built_graph schedule = fst (build_graph init_engine schedule)"


section \<open>Library functions of networkx used by the engine\<close>

text \<open>
  networkx is not part of the repository. Each function the engine calls is modelled here
  after the library's documented behaviour, as an executable function on \<open>DiGraph\<close>.
\<close>

datatype error = NodeNotFound | OverflowError

subsection \<open>all\_simple\_paths\<close>

text \<open>
  \<open>nx.all_simple_paths(G, source, target)\<close> generates the simple paths from \<open>source\<close> to
  \<open>target\<close> by a depth-first search that follows the successors of each node in the order
  of \<open>G.edges(node)\<close>. \<open>simple_paths_from G targets path v\<close> is the search at the moment
  the node \<open>v\<close> is reached along the current path \<open>path\<close>: the path is yielded when \<open>v\<close> is
  a target, and the search goes on through \<open>v\<close> only while the path is shorter than the
  cutoff (by default the number of nodes minus one) and some target is neither on the path
  nor \<open>v\<close> itself. The path from a node to itself is the single-node path (networkx 3.2
  and later); the repository's test \<open>test_empty_schedule_handled\<close>, which expects the
  duration of a single activity as the critical path's duration, relies on it.
\<close>

function simple_paths_from :: "DiGraph \<Rightarrow> string list \<Rightarrow> string list \<Rightarrow> string \<Rightarrow> string list list" where
  "simple_paths_from G targets path v =
     (if v \<in> set targets then [path @ [v]] else []) @
     (if length path < length (nodes G) - 1 \<and> (\<exists>t \<in> set targets. t \<notin> set path \<and> t \<noteq> v)
      then concat (map (simple_paths_from G targets (path @ [v]))
                       (filter (\<lambda>w. w \<notin> set (path @ [v])) (successors G v)))
      else [])"
  by pat_completeness auto
termination
  by (relation "measure (\<lambda>(G, targets, path, v). length (nodes G) - length path)") auto

declare simple_paths_from.simps [simp del]

text \<open>
  A source that is not a node raises \<open>NodeNotFound\<close>. A target that is not a node is read
  as an iterable of nodes: for a string, its characters.
\<close>

definition all_simple_paths :: "DiGraph \<Rightarrow> string \<Rightarrow> string \<Rightarrow> error + string list list" where
  "all_simple_paths G source target =
     (if source \<notin> set (node_ids G) then Inl NodeNotFound
      else let targets = (if target \<in> set (node_ids G) then [target] else map (\<lambda>c. [c]) target)
           in if targets \<noteq> [] then Inr (simple_paths_from G targets [] source) else Inr [])"

subsection \<open>is\_directed\_acyclic\_graph\<close>

text \<open>
  \<open>nx.is_directed_acyclic_graph\<close> runs the topological sort by generations: the nodes
  without a predecessor among the nodes still there form the next generation and are taken
  away, until no such node is left; the graph has a cycle exactly when some node is never
  taken away. \<open>unsorted_nodes G rem\<close> is what is left of \<open>rem\<close> in the end.
\<close>

function unsorted_nodes :: "DiGraph \<Rightarrow> string list \<Rightarrow> string list" where
  "unsorted_nodes G rem =
     (let zero_indegree = filter (\<lambda>v. \<forall>e \<in> set (edges G). snd e = v \<longrightarrow> fst e \<notin> set rem) rem
      in if zero_indegree = [] then rem
         else unsorted_nodes G (filter (\<lambda>v. v \<notin> set zero_indegree) rem))"
  by pat_completeness auto
termination
proof (relation "measure (\<lambda>(G, rem). length rem)", goal_cases)
  case 1
  show ?case by simp
next
  case (2 G rem zero)
  hence "zero \<noteq> []" by simp
  then obtain x where x: "x \<in> set zero" by (cases zero) auto
  with 2 have "x \<in> set rem" by auto
  with x have "length (filter (\<lambda>v. v \<notin> set zero) rem) < length rem"
    by (intro length_filter_less[of x]) auto
  then show ?case by simp
qed

declare unsorted_nodes.simps [simp del]

definition is_directed_acyclic_graph :: "DiGraph \<Rightarrow> bool" where
  "is_directed_acyclic_graph G = (unsorted_nodes G (node_ids G) = [])"

subsection \<open>simple\_cycles\<close>

text \<open>
  \<open>nx.simple_cycles(G)\<close> generates every elementary cycle of the graph once (a self-loop
  is a cycle of one node). The engine only counts them. The model lists each cycle from
  its first node in the order of the nodes: the cycles through \<open>v\<close> that avoid the nodes
  before \<open>v\<close> are the simple paths, in the graph induced on \<open>v\<close> and the nodes after it, from
  \<open>v\<close> to a node with an edge back to \<open>v\<close>.
\<close>

definition induced :: "DiGraph \<Rightarrow> string list \<Rightarrow> DiGraph" where
  "induced G keep =
     \<lparr>nodes = filter (\<lambda>n. fst n \<in> set keep) (nodes G),
      edges = filter (\<lambda>e. fst e \<in> set keep \<and> snd e \<in> set keep) (edges G)\<rparr>"

definition predecessors_of :: "DiGraph \<Rightarrow> string \<Rightarrow> string list" where
  "predecessors_of G v = map fst (filter (\<lambda>e. snd e = v) (edges G))"

fun cycles_from :: "DiGraph \<Rightarrow> string list \<Rightarrow> string list list" where
  "cycles_from G [] = []"
| "cycles_from G (v # later) =
     (let H = induced G (v # later)
      in concat (map (\<lambda>w. simple_paths_from H [w] [] v) (predecessors_of H v)))
     @ cycles_from G later"

definition simple_cycles :: "DiGraph \<Rightarrow> string list list" where
  "simple_cycles G = cycles_from G (node_ids G)"

subsection \<open>to\_undirected and connected\_components\<close>

text \<open>
  In \<open>G.to_undirected()\<close> the neighbours of a node are its successors and its predecessors.
  \<open>nx.connected_components\<close> goes through the nodes in order and, from each node not seen
  yet, collects its component by a breadth-first search (\<open>plain_bfs\<close>), level by level.
  The components are sets: only their elements and their number are observable. (The
  library's search also stops as soon as it has seen every node of the graph; the set it
  returns is the same.)
\<close>

definition neighbors :: "DiGraph \<Rightarrow> string \<Rightarrow> string list" where
  "neighbors G v = successors G v @ predecessors_of G v"

definition next_level :: "DiGraph \<Rightarrow> string list \<Rightarrow> string list \<Rightarrow> string list" where
  "next_level G seen thislevel =
     remdups (filter (\<lambda>w. w \<notin> set seen) (concat (map (neighbors G) thislevel)))"

function plain_bfs :: "DiGraph \<Rightarrow> string list \<Rightarrow> string list \<Rightarrow> string list" where
  "plain_bfs G seen thislevel =
     (if thislevel = [] then seen
      else plain_bfs G (seen @ next_level G seen thislevel) (next_level G seen thislevel))"
  by pat_completeness auto
termination
proof (relation "measure (\<lambda>(G, seen, thislevel).
         card ((fst ` set (edges G) \<union> snd ` set (edges G)) - set seen)
         + (if thislevel = [] then 0 else 1))", goal_cases)
  case 1
  show ?case by simp
next
  case (2 G seen thislevel)
  let ?U = "fst ` set (edges G) \<union> snd ` set (edges G)"
  let ?N = "next_level G seen thislevel"
  have sub: "set ?N \<subseteq> ?U - set seen"
    by (force simp: next_level_def neighbors_def successors_def predecessors_of_def)
  show ?case
  proof (cases "?N = []")
    case True
    with 2 show ?thesis by simp
  next
    case False
    then obtain x where x: "x \<in> set ?N" by (cases ?N) auto
    have "?U - set (seen @ ?N) \<subset> ?U - set seen"
      using sub x by auto
    hence "card (?U - set (seen @ ?N)) < card (?U - set seen)"
      by (intro psubset_card_mono) auto
    with 2 False show ?thesis by simp
  qed
qed

declare plain_bfs.simps [simp del]

fun components_from :: "DiGraph \<Rightarrow> string list \<Rightarrow> string list \<Rightarrow> string list list" where
  "components_from G seen [] = []"
| "components_from G seen (v # vs) =
     (if v \<in> set seen then components_from G seen vs
      else let c = plain_bfs G [v] [v] in c # components_from G (seen @ c) vs)"

definition connected_components :: "DiGraph \<Rightarrow> string list list" where
  "connected_components G = components_from G [] (node_ids G)"

section \<open>find\_critical\_path\<close>

text \<open>
  The generator expression \<open>sum(self.activities[n].duration_days for n in path if n in
  self.activities)\<close>: a node that is not a key of the index contributes nothing.
\<close>

definition path_duration :: "RiskEngine \<Rightarrow> string list \<Rightarrow> nat" where
  "path_duration self path =
     sum_list (List.map_filter (\<lambda>node. map_option duration_days (map_of (activities self) node)) path)"

definition sources :: "DiGraph \<Rightarrow> string list" where
  "sources G = filter (\<lambda>n. in_degree G n = 0) (node_ids G)"

definition sinks :: "DiGraph \<Rightarrow> string list" where
  "sinks G = filter (\<lambda>n. out_degree G n = 0) (node_ids G)"

text \<open>
  The body of the innermost loop: a path replaces the longest one so far only when its
  duration is strictly greater. The state is \<open>(longest_path, longest_duration)\<close>.
\<close>

definition longer_path :: "RiskEngine \<Rightarrow> string list \<Rightarrow> string list \<times> nat \<Rightarrow> string list \<times> nat" where
  "longer_path self path st =
     (let duration = path_duration self path
      in if duration > snd st then (path, duration) else st)"

text \<open>
  The loops over the sinks and over the sources. \<open>all_simple_paths\<close> never raises
  \<open>NetworkXNoPath\<close>, the only exception the loop catches; \<open>NodeNotFound\<close> would leave
  the function.
\<close>

fun scan_sinks ::
  "RiskEngine \<Rightarrow> DiGraph \<Rightarrow> string \<Rightarrow> string list \<Rightarrow> string list \<times> nat \<Rightarrow> error + string list \<times> nat" where
  "scan_sinks self G source [] st = Inr st"
| "scan_sinks self G source (sink # rest) st =
     (case all_simple_paths G source sink of
        Inl e \<Rightarrow> Inl e
      | Inr paths \<Rightarrow> scan_sinks self G source rest (fold (longer_path self) paths st))"

fun scan_sources ::
  "RiskEngine \<Rightarrow> DiGraph \<Rightarrow> string list \<Rightarrow> string list \<Rightarrow> string list \<times> nat \<Rightarrow> error + string list \<times> nat" where
  "scan_sources self G [] snks st = Inr st"
| "scan_sources self G (source # rest) snks st =
     (case scan_sinks self G source snks st of
        Inl e \<Rightarrow> Inl e
      | Inr st' \<Rightarrow> scan_sources self G rest snks st')"

text \<open>The bottleneck loop; the state is \<open>(bottleneck, max_duration)\<close>.\<close>

definition bottleneck_step :: "RiskEngine \<Rightarrow> string \<Rightarrow> string option \<times> nat \<Rightarrow> string option \<times> nat" where
  "bottleneck_step self activity_id st =
     (case map_of (activities self) activity_id of
        None \<Rightarrow> st
      | Some a \<Rightarrow> if duration_days a > snd st then (Some activity_id, duration_days a) else st)"

definition find_bottleneck :: "RiskEngine \<Rightarrow> string list \<Rightarrow> string option" where
  "find_bottleneck self path = fst (fold (bottleneck_step self) path (None, 0))"

definition assess_path_risk :: "RiskEngine \<Rightarrow> string list \<Rightarrow> RiskLevel" where
  "assess_path_risk self path =
     (if path = [] then LOW
      else let total_duration = path_duration self path
           in if total_duration > 365 then CRITICAL
              else if total_duration > 180 then HIGH
              else if total_duration > 90 then MEDIUM
              else LOW)"

text \<open>
  \<open>not self.graph\<close> holds for \<open>None\<close> and for a graph without nodes (the truth value of a
  graph is its number of nodes): the first two branches below.
\<close>

definition find_critical_path :: "RiskEngine \<Rightarrow> error + CriticalPathInfo" where
  "find_critical_path self =
     (case graph self of
        None \<Rightarrow> Inr \<lparr>path_activities = [], total_duration_days = 0,
                     bottleneck_activity = None, path_risk_level = LOW\<rparr>
      | Some G \<Rightarrow>
          if length (nodes G) = 0
          then Inr \<lparr>path_activities = [], total_duration_days = 0,
                    bottleneck_activity = None, path_risk_level = LOW\<rparr>
          else if sources G = [] \<or> sinks G = []
          then Inr \<lparr>path_activities = node_ids G,
                    total_duration_days = path_duration self (node_ids G),
                    bottleneck_activity = None, path_risk_level = MEDIUM\<rparr>
          else (case scan_sources self G (sources G) (sinks G) ([], 0) of
                  Inl e \<Rightarrow> Inl e
                | Inr (longest_path, longest_duration) \<Rightarrow>
                    Inr \<lparr>path_activities = longest_path,
                         total_duration_days = longest_duration,
                         bottleneck_activity = find_bottleneck self longest_path,
                         path_risk_level = assess_path_risk self longest_path\<rparr>))"

text \<open>
  The number of times the body of the innermost loop runs: one for every path that
  \<open>all_simple_paths\<close> generates, for every pair of a source and a sink.
\<close>

definition candidate_paths :: "DiGraph \<Rightarrow> string list list" where
  "candidate_paths G =
     concat (map (\<lambda>source. concat (map (\<lambda>sink.
        case all_simple_paths G source sink of Inl e \<Rightarrow> [] | Inr paths \<Rightarrow> paths) (sinks G)))
       (sources G))"

definition paths_examined :: "DiGraph \<Rightarrow> nat" where
  "paths_examined G = length (candidate_paths G)"

section \<open>validate\_schedule\_integrity\<close>

text \<open>
  An issue is a string built from a fixed template and one parameter; the model keeps the
  template as a constructor and the parameter as its argument: the number of cycles, of
  components, of zero-duration activities, and the identifier of an isolated node.
\<close>

datatype issue =
  NoGraphBuilt
| CycleDetected nat
| DisconnectedGroups nat
| ZeroDuration nat
| IsolatedActivity string

definition cycle_issues :: "DiGraph \<Rightarrow> issue list" where
  "cycle_issues G =
     (if \<not> is_directed_acyclic_graph G then [CycleDetected (length (simple_cycles G))] else [])"

definition component_issues :: "DiGraph \<Rightarrow> issue list" where
  "component_issues G =
     (let components = connected_components G
      in if length components > 1 then [DisconnectedGroups (length components)] else [])"

definition zero_duration_issues :: "RiskEngine \<Rightarrow> issue list" where
  "zero_duration_issues self =
     (let zero_duration = map fst (filter (\<lambda>kv. duration_days (snd kv) = 0) (activities self))
      in if zero_duration \<noteq> [] then [ZeroDuration (length zero_duration)] else [])"

definition isolated_issues :: "DiGraph \<Rightarrow> issue list" where
  "isolated_issues G =
     map IsolatedActivity (filter (\<lambda>node. in_degree G node = 0 \<and> out_degree G node = 0) (node_ids G))"

definition validate_schedule_integrity :: "RiskEngine \<Rightarrow> issue list" where
  "validate_schedule_integrity self =
     (case graph self of
        None \<Rightarrow> [NoGraphBuilt]
      | Some G \<Rightarrow>
          if nodes G = [] then [NoGraphBuilt]
          else cycle_issues G @ component_issues G @ zero_duration_issues self @ isolated_issues G)"

section \<open>find\_high\_risk\_activities\<close>

text \<open>
  \<open>sorted(xs, key=key, reverse=True)\<close>: the list is reversed, sorted by a stable sort into
  ascending order, and reversed again, so that elements with equal keys keep their order.
\<close>

definition py_sorted_reverse :: "('a \<Rightarrow> 'k::linorder) \<Rightarrow> 'a list \<Rightarrow> 'a list" where
  "py_sorted_reverse key xs = rev (sort_key key (rev xs))"

text \<open>
  \<open>duration.duration_days / 30\<close> divides two integers into a float, rounded to the nearest
  one. An integer has no upper bound, a float has: the division raises \<open>OverflowError\<close>
  when the quotient rounds to \<open>2 ^ 1024\<close> or more, that is from \<open>2 ^ 1024 - 2 ^ 970\<close> on, half
  a step above the largest float.
\<close>

definition division_overflows :: "nat \<Rightarrow> bool" where
  "division_overflows d = (30 * (2 ^ 1024 - 2 ^ 970) \<le> d)"

text \<open>
  The loop that fills \<open>risk_scores\<close>, a dictionary in the order of the nodes. The score of a
  node is computed in floating point from its out-degree, its duration and its betweenness
  centrality. The arithmetic is not modelled: the function \<open>score\<close> gives the value the loop
  stores for each node, in any linear order. What is modelled is whether the loop gets there:
  the division of the duration, for a node found in the index, stands outside the \<open>try\<close> and
  its \<open>OverflowError\<close> leaves the function; whatever the centrality raises is caught.
\<close>

fun score_nodes ::
  "(RiskEngine \<Rightarrow> string \<Rightarrow> 's) \<Rightarrow> RiskEngine \<Rightarrow> string list \<Rightarrow> error + (string \<times> 's) list" where
  "score_nodes score self [] = Inr []"
| "score_nodes score self (node # rest) =
     (case map_of (activities self) node of
        Some duration \<Rightarrow>
          if division_overflows (duration_days duration) then Inl OverflowError
          else (case score_nodes score self rest of
                  Inl e \<Rightarrow> Inl e
                | Inr risk_scores \<Rightarrow> Inr ((node, score self node) # risk_scores))
      | None \<Rightarrow>
          (case score_nodes score self rest of
             Inl e \<Rightarrow> Inl e
           | Inr risk_scores \<Rightarrow> Inr ((node, score self node) # risk_scores)))"

text \<open>The sort and the cut: the top fifth of the scored nodes, at least one.\<close>

definition top_risks :: "(string \<times> 's::linorder) list \<Rightarrow> string list" where
  "top_risks risk_scores =
     (let sorted_activities = py_sorted_reverse snd risk_scores;
          top_count = max 1 (length sorted_activities div 5)
      in map fst (take top_count sorted_activities))"

definition find_high_risk_activities ::
  "(RiskEngine \<Rightarrow> string \<Rightarrow> 's::linorder) \<Rightarrow> RiskEngine \<Rightarrow> error + string list" where
  "find_high_risk_activities score self =
     (case graph self of
        None \<Rightarrow> Inr []
      | Some G \<Rightarrow>
          if nodes G = [] then Inr []
          else (case score_nodes score self (node_ids G) of
                  Inl e \<Rightarrow> Inl e
                | Inr risk_scores \<Rightarrow> Inr (top_risks risk_scores)))"

section \<open>Notions of the specification\<close>

text \<open>
  What a graph built by \<open>build_graph\<close> always satisfies: every node once, every edge once,
  and both ends of every edge among the nodes.
\<close>

definition wf_graph :: "DiGraph \<Rightarrow> bool" where
  "wf_graph G = (distinct (node_ids G) \<and> distinct (edges G) \<and>
     fst ` set (edges G) \<subseteq> set (node_ids G) \<and> snd ` set (edges G) \<subseteq> set (node_ids G))"

text \<open>
  A simple path from \<open>s\<close> to \<open>t\<close>: a non-empty list of distinct nodes that starts at \<open>s\<close>,
  ends at \<open>t\<close>, and goes along an edge of the graph at every step.
\<close>

definition is_simple_path :: "DiGraph \<Rightarrow> string \<Rightarrow> string \<Rightarrow> string list \<Rightarrow> bool" where
  "is_simple_path G s t p =
     (p \<noteq> [] \<and> hd p = s \<and> last p = t \<and> distinct p \<and> set p \<subseteq> set (node_ids G) \<and>
      successively (\<lambda>u v. (u, v) \<in> set (edges G)) p)"

text \<open>The simple paths from any source to any sink.\<close>

definition source_sink_paths :: "DiGraph \<Rightarrow> string list set" where
  "source_sink_paths G = {p. \<exists>s \<in> set (sources G). \<exists>t \<in> set (sinks G). is_simple_path G s t p}"

text \<open>
  The duration of a node is the \<open>duration\<close> attribute \<open>build_graph\<close> gave it; the duration
  of a path is the sum of the durations of its nodes.
\<close>

definition node_duration :: "DiGraph \<Rightarrow> string \<Rightarrow> nat" where
  "node_duration G v = (case map_of (nodes G) v of None \<Rightarrow> 0 | Some a \<Rightarrow> attr_duration a)"

definition sum_of_durations :: "DiGraph \<Rightarrow> string list \<Rightarrow> nat" where
  "sum_of_durations G p = sum_list (map (node_duration G) p)"

text \<open>The duration the engine's index gives to an identifier (nothing for an unknown one).\<close>

definition dur_of :: "RiskEngine \<Rightarrow> string \<Rightarrow> nat" where
  "dur_of self v = (case map_of (activities self) v of None \<Rightarrow> 0 | Some a \<Rightarrow> duration_days a)"

text \<open>
  \<open>b\<close> is the node of \<open>path\<close> with the largest duration, the first one among equals: no node
  of the path lasts longer, and every node before the first occurrence of \<open>b\<close> is strictly
  shorter.
\<close>

definition first_longest :: "(string \<Rightarrow> nat) \<Rightarrow> string list \<Rightarrow> string \<Rightarrow> bool" where
  "first_longest d path b =
     (b \<in> set path \<and> (\<forall>x \<in> set path. d x \<le> d b) \<and>
      (\<forall>x \<in> set (takeWhile (\<lambda>x. x \<noteq> b) path). d x < d b))"

text \<open>
  Two nodes are connected when a chain of edges, each taken in either direction, leads from
  one to the other; the connected components of the graph are the classes of its nodes
  under this relation.
\<close>

definition connected_rel :: "DiGraph \<Rightarrow> (string \<times> string) set" where
  "connected_rel G = (set (edges G) \<union> (set (edges G))\<inverse>)\<^sup>*"

definition component_count :: "DiGraph \<Rightarrow> nat" where
  "component_count G = card (set (node_ids G) // connected_rel G)"

text \<open>The number of nodes whose duration is exactly zero.\<close>

definition zero_duration_count :: "DiGraph \<Rightarrow> nat" where
  "zero_duration_count G = length (filter (\<lambda>v. node_duration G v = 0) (node_ids G))"

section \<open>Example schedules\<close>

text \<open>
  \<open>ScheduleActivity(id=i, name=n, duration_days=d, predecessors=ps)\<close> with the defaults of
  the other fields, for a name \<open>n\<close> whose words are separated by single spaces (the
  validator of the name rewrites any other name into that form before it is stored), and
  the schedules of tests/test\_risk\_engine.py.
\<close>

definition activity :: "string \<Rightarrow> string \<Rightarrow> nat \<Rightarrow> string list \<Rightarrow> ScheduleActivity" where
  "activity i n d ps =
     \<lparr>act_id = i, name = n, duration_days = d, status = NOT_STARTED, predecessors = ps,
      trade = None\<rparr>"

definition schedule_of :: "ScheduleActivity list \<Rightarrow> ScheduleInput" where
  "schedule_of acts = \<lparr>project_name = ''Project'', sched_activities = acts\<rparr>"

definition linear_schedule :: ScheduleInput where
  "linear_schedule = schedule_of
     [(activity ''A'' ''Foundations'' 20 [])\<lparr>trade := Some ''groundworks''\<rparr>,
      (activity ''B'' ''Superstructure'' 40 [''A''])\<lparr>trade := Some ''steelwork''\<rparr>,
      (activity ''C'' ''Fit-out'' 30 [''B''])\<lparr>trade := Some ''M&E''\<rparr>]"

definition parallel_schedule :: ScheduleInput where
  "parallel_schedule = schedule_of
     [activity ''A'' ''Site setup'' 10 [],
      (activity ''B'' ''Track work'' 60 [''A''])\<lparr>trade := Some ''rail''\<rparr>,
      (activity ''C'' ''Signalling'' 30 [''A''])\<lparr>trade := Some ''electrical''\<rparr>,
      (activity ''D'' ''Testing'' 14 [''B'', ''C''])\<lparr>trade := Some ''general''\<rparr>]"

text \<open>An activity that names itself as its predecessor.\<close>

definition self_loop_schedule :: ScheduleInput where
  "self_loop_schedule = schedule_of [activity ''A'' ''Loop'' 5 [''A'']]"

text \<open>Two activities that wait for each other: no source and no sink.\<close>

definition two_cycle_schedule :: ScheduleInput where
  "two_cycle_schedule = schedule_of
     [activity ''A'' ''First'' 3 [''B''], activity ''B'' ''Second'' 4 [''A'']]"

text \<open>A chain from \<open>A\<close> to \<open>D\<close> next to a cycle between \<open>B\<close> and \<open>C\<close>.\<close>

definition cycle_beside_chain_schedule :: ScheduleInput where
  "cycle_beside_chain_schedule = schedule_of
     [activity ''A'' ''Start'' 1 [], activity ''D'' ''Finish'' 2 [''A''],
      activity ''B'' ''Round'' 3 [''C''], activity ''C'' ''About'' 4 [''B'']]"

text \<open>A single activity, of duration 100 as in the tests, and of duration zero.\<close>

definition single_schedule :: "nat \<Rightarrow> ScheduleInput" where
  "single_schedule d = schedule_of [activity ''X'' ''Everything'' d []]"

text \<open>Six activities without dependencies.\<close>

definition six_schedule :: ScheduleInput where
  "six_schedule = schedule_of
     [activity ''A1'' ''One'' 1 [], activity ''A2'' ''Two'' 2 [], activity ''A3'' ''Three'' 3 [],
      activity ''A4'' ''Four'' 4 [], activity ''A5'' ''Five'' 5 [], activity ''A6'' ''Six'' 6 []]"

text \<open>A milestone of duration zero before a second milestone of duration zero.\<close>

definition milestones_schedule :: ScheduleInput where
  "milestones_schedule = schedule_of
     [activity ''M1'' ''Kick-off'' 0 [], activity ''M2'' ''Hand-over'' 0 [''M1'']]"

text \<open>
  A family of ever larger schedules: \<open>k + 2\<close> activities, named \<open>a\<close>, \<open>aa\<close>, \<open>aaa\<close>, ...,
  each of which waits for all the activities before it.
\<close>

definition node_name :: "nat \<Rightarrow> string" where
  "node_name j = replicate (Suc j) CHR ''a''"

definition dense_schedule :: "nat \<Rightarrow> ScheduleInput" where
  "dense_schedule k = schedule_of
     (map (\<lambda>j. activity (node_name j) (node_name j) 1 (map node_name [0..<j])) [0..<k + 2])"

text \<open>
  In \<open>dense_schedule k\<close>, the path from the first activity to the last one through the
  activities whose numbers are in \<open>S\<close>, in increasing order.
\<close>

definition path_through :: "nat \<Rightarrow> nat set \<Rightarrow> string list" where
  "path_through k S = map node_name (0 # sorted_list_of_set S @ [Suc k])"

text \<open>
  Ten activities without dependencies; three of them share the longest duration.
\<close>

definition ten_schedule :: ScheduleInput where
  "ten_schedule = schedule_of
     [activity ''T1'' ''One'' 5 [], activity ''T2'' ''Two'' 9 [], activity ''T3'' ''Three'' 3 [],
      activity ''T4'' ''Four'' 9 [], activity ''T5'' ''Five'' 1 [], activity ''T6'' ''Six'' 2 [],
      activity ''T7'' ''Seven'' 9 [], activity ''T8'' ''Eight'' 4 [], activity ''T9'' ''Nine'' 6 [],
      activity ''T10'' ''Ten'' 7 []]"

text \<open>A single activity whose duration, \<open>10 ^ 400\<close> days, is beyond the range of a float.\<close>

definition endless_schedule :: ScheduleInput where
  "endless_schedule = schedule_of [activity ''X'' ''Everything'' (10 ^ 400) []]"

text \<open>
  A cycle between \<open>A\<close> and \<open>B\<close>, an isolated activity \<open>E\<close>, and two activities of duration
  zero: every check of the integrity report finds something.
\<close>

definition defective_schedule :: ScheduleInput where
  "defective_schedule = schedule_of
     [activity ''A'' ''First'' 0 [''B''], activity ''B'' ''Second'' 4 [''A''],
      activity ''E'' ''Alone'' 0 []]"

section \<open>Properties of build\_graph\<close>



lemma fold_update_keys_set:
  "fst ` set (fold (\<lambda>a d. AList.update (k a) (f a) d) acts acc) = fst ` set acc \<union> k ` set acts"
  by (induction acts arbitrary: acc) (auto simp: AList.dom_update)

lemma fold_update_distinct:
  "distinct (map fst acc) \<Longrightarrow> distinct (map fst (fold (\<lambda>a d. AList.update (k a) (f a) d) acts acc))"
  by (induction acts arbitrary: acc) (auto simp: AList.distinct_update)

lemma update_fresh: "k \<notin> fst ` set al \<Longrightarrow> AList.update k v al = al @ [(k, v)]"
  by (induction al) auto

lemma fold_update_fresh:
  "distinct (map k acts) \<Longrightarrow> k ` set acts \<inter> fst ` set acc = {} \<Longrightarrow>
   fold (\<lambda>a d. AList.update (k a) (f a) d) acts acc = acc @ map (\<lambda>a. (k a, f a)) acts"
proof (induction acts arbitrary: acc)
  case Nil
  then show ?case by simp
next
  case (Cons a acts)
  have "k a \<notin> fst ` set acc" using Cons.prems by auto
  hence u: "AList.update (k a) (f a) acc = acc @ [(k a, f a)]" by (rule update_fresh)
  have "k ` set acts \<inter> fst ` set (acc @ [(k a, f a)]) = {}"
    using Cons.prems by auto
  with Cons.IH[of "acc @ [(k a, f a)]"] Cons.prems u show ?case by simp
qed

lemma update_map_val:
  "AList.update k (g v) (map (\<lambda>(k, v). (k, g v)) al) = map (\<lambda>(k, v). (k, g v)) (AList.update k v al)"
  by (induction al) auto

lemma fold_update_map_val:
  "fold (\<lambda>a d. AList.update (k a) (g (f a)) d) acts (map (\<lambda>(k, v). (k, g v)) acc)
   = map (\<lambda>(k, v). (k, g v)) (fold (\<lambda>a d. AList.update (k a) (f a) d) acts acc)"
  by (induction acts arbitrary: acc) (simp_all add: update_map_val)

lemma nodes_add_edge [simp]: "nodes (add_edge G u v) = nodes G"
  by (simp add: add_edge_def)

lemma nodes_add_pred_edges [simp]: "nodes (add_pred_edges idx a G) = nodes G"
proof -
  have "nodes (fold (\<lambda>pred_id G. if dict_in pred_id idx then add_edge G pred_id c else G) ps G) = nodes G"
    for ps c
    by (induction ps arbitrary: G) auto
  thus ?thesis by (simp add: add_pred_edges_def)
qed

lemma nodes_add_edges [simp]: "nodes (add_edges idx acts G) = nodes G"
  unfolding add_edges_def by (induction acts arbitrary: G) auto

lemma edges_add_nodes [simp]: "edges (add_nodes acts G) = edges G"
  unfolding add_nodes_def by (induction acts arbitrary: G) (auto simp: add_node_def)

lemma nodes_add_nodes:
  "nodes (add_nodes acts G) = fold (\<lambda>a d. AList.update (act_id a) (attrs_of a) d) acts (nodes G)"
  unfolding add_nodes_def by (induction acts arbitrary: G) (auto simp: add_node_def)

lemma set_edges_add_edge [simp]: "set (edges (add_edge G u v)) = insert (u, v) (set (edges G))"
  by (auto simp: add_edge_def)

lemma distinct_edges_add_edge: "distinct (edges G) \<Longrightarrow> distinct (edges (add_edge G u v))"
  by (auto simp: add_edge_def)

lemma set_edges_add_pred_edges:
  "set (edges (add_pred_edges idx a G)) =
     set (edges G) \<union> {(p, act_id a) | p. p \<in> set (predecessors a) \<and> dict_in p idx}"
proof -
  have "set (edges (fold (\<lambda>pred_id G. if dict_in pred_id idx then add_edge G pred_id c else G) ps G))
        = set (edges G) \<union> {(p, c) | p. p \<in> set ps \<and> dict_in p idx}" for ps c
    by (induction ps arbitrary: G) auto
  thus ?thesis by (simp add: add_pred_edges_def)
qed

lemma distinct_edges_add_pred_edges:
  "distinct (edges G) \<Longrightarrow> distinct (edges (add_pred_edges idx a G))"
proof -
  have "distinct (edges G) \<Longrightarrow>
    distinct (edges (fold (\<lambda>pred_id G. if dict_in pred_id idx then add_edge G pred_id c else G) ps G))"
    for ps c
    by (induction ps arbitrary: G) (auto simp: distinct_edges_add_edge)
  thus "distinct (edges G) \<Longrightarrow> ?thesis" by (simp add: add_pred_edges_def)
qed

lemma set_edges_add_edges:
  "set (edges (add_edges idx acts G)) =
     set (edges G) \<union> {(p, act_id a) | p a. a \<in> set acts \<and> p \<in> set (predecessors a) \<and> dict_in p idx}"
  unfolding add_edges_def
  by (induction acts arbitrary: G) (auto simp: set_edges_add_pred_edges)

lemma distinct_edges_add_edges:
  "distinct (edges G) \<Longrightarrow> distinct (edges (add_edges idx acts G))"
  unfolding add_edges_def
  by (induction acts arbitrary: G) (auto simp: distinct_edges_add_pred_edges)


lemma index_activities_distinct:
  "distinct (map act_id acts) \<Longrightarrow> index_activities acts = map (\<lambda>a. (act_id a, a)) acts"
  unfolding index_activities_def using fold_update_fresh[of act_id acts "[]" "\<lambda>a. a"] by simp

lemma index_activities_keys: "fst ` set (index_activities acts) = act_id ` set acts"
  unfolding index_activities_def using fold_update_keys_set[of act_id "\<lambda>a. a" acts "[]"] by simp

lemma dict_in_index: "dict_in p (index_activities acts) \<longleftrightarrow> p \<in> act_id ` set acts"
  using index_activities_keys[of acts] by (simp add: dict_in_def)

lemma built_graph_eq:
  "built_graph s = add_edges (index_activities (sched_activities s)) (sched_activities s)
                     (add_nodes (sched_activities s) empty_graph)"
  by (simp add: built_graph_def build_graph_def Let_def)

lemma built_eq:
  "built s = \<lparr>graph = Some (built_graph s), activities = index_activities (sched_activities s)\<rparr>"
  by (simp add: built_def built_graph_def build_graph_def Let_def init_engine_def)

lemma nodes_built_graph_index:
  "nodes (built_graph s) = map (\<lambda>(k, a). (k, attrs_of a)) (index_activities (sched_activities s))"
  unfolding built_graph_eq index_activities_def
  using fold_update_map_val[of act_id attrs_of "\<lambda>a. a" "sched_activities s" "[]"]
  by (simp add: nodes_add_nodes empty_graph_def)

lemma node_ids_built_graph:
  "node_ids (built_graph s) = map fst (index_activities (sched_activities s))"
  by (simp add: node_ids_def nodes_built_graph_index case_prod_beta comp_def)

lemma edges_built_graph:
  "set (edges (built_graph s)) =
     {(p, act_id a) | p a. a \<in> set (sched_activities s) \<and> p \<in> set (predecessors a)
        \<and> p \<in> act_id ` set (sched_activities s)}"
  by (simp add: built_graph_eq set_edges_add_edges dict_in_index empty_graph_def)

lemma distinct_edges_built_graph: "distinct (edges (built_graph s))"
  by (simp add: built_graph_eq distinct_edges_add_edges empty_graph_def)

lemma distinct_node_ids_built_graph: "distinct (node_ids (built_graph s))"
  unfolding node_ids_built_graph index_activities_def
  by (rule fold_update_distinct) simp

lemma set_node_ids_built_graph: "set (node_ids (built_graph s)) = act_id ` set (sched_activities s)"
  using index_activities_keys[of "sched_activities s"] by (simp add: node_ids_built_graph)

lemma wf_built_graph: "wf_graph (built_graph s)"
  unfolding wf_graph_def
  by (auto simp: distinct_node_ids_built_graph distinct_edges_built_graph
      set_node_ids_built_graph edges_built_graph)

text \<open>
  Claim C7, amended. For a schedule whose activities have distinct identifiers, the built
  graph has exactly the identifiers of the activities as its nodes, in the order of the
  input; the node of an activity carries its name, its duration, its trade (or \<open>general\<close>
  when the trade is absent or empty) and the value of its status; the edge from \<open>p\<close> to \<open>c\<close> is
  there exactly when the activity \<open>c\<close> declares the predecessor \<open>p\<close> and \<open>p\<close> is the identifier
  of an activity of the input (\<open>c\<close> itself included); every edge is there once, and the
  engine holds the graph. References to unknown identifiers give no edge; \<open>build_graph\<close> is
  a total function, it never fails.
\<close>
theorem build_graph_nodes_and_edges:
  assumes "distinct (map act_id (sched_activities schedule))"
  shows "node_ids (built_graph schedule) = map act_id (sched_activities schedule)
       \<and> (\<forall>a \<in> set (sched_activities schedule).
            map_of (nodes (built_graph schedule)) (act_id a) =
              Some \<lparr>attr_name = name a, attr_duration = duration_days a,
                    attr_trade = (case trade a of None \<Rightarrow> ''general''
                                  | Some t \<Rightarrow> if t = [] then ''general'' else t),
                    attr_status = status_value (status a)\<rparr>)
       \<and> (\<forall>p c. (p, c) \<in> set (edges (built_graph schedule)) \<longleftrightarrow>
            (\<exists>a \<in> set (sched_activities schedule). act_id a = c \<and> p \<in> set (predecessors a)
               \<and> p \<in> act_id ` set (sched_activities schedule)))
       \<and> distinct (edges (built_graph schedule))
       \<and> graph (built schedule) = Some (built_graph schedule)"
proof -
  let ?acts = "sched_activities schedule"
  have idx: "index_activities ?acts = map (\<lambda>a. (act_id a, a)) ?acts"
    using assms by (rule index_activities_distinct)
  have ns: "nodes (built_graph schedule) = map (\<lambda>a. (act_id a, attrs_of a)) ?acts"
    by (simp add: nodes_built_graph_index idx)
  have ids: "node_ids (built_graph schedule) = map act_id ?acts"
    by (simp add: node_ids_def ns comp_def)
  have attrs: "map_of (nodes (built_graph schedule)) (act_id a) = Some (attrs_of a)"
    if "a \<in> set ?acts" for a
  proof -
    have "distinct (map fst (nodes (built_graph schedule)))"
      using assms by (simp add: ns comp_def)
    moreover have "(act_id a, attrs_of a) \<in> set (nodes (built_graph schedule))"
      using that by (auto simp: ns)
    ultimately show ?thesis by simp
  qed
  have es: "(p, c) \<in> set (edges (built_graph schedule)) \<longleftrightarrow>
      (\<exists>a \<in> set ?acts. act_id a = c \<and> p \<in> set (predecessors a) \<and> p \<in> act_id ` set ?acts)" for p c
    by (auto simp: edges_built_graph)
  show ?thesis
    using ids attrs es distinct_edges_built_graph[of schedule]
    by (simp add: attrs_of_def trade_or_general_def built_eq)
qed

theorem build_graph_nodes_and_edges_witness:
  "distinct (map act_id (sched_activities parallel_schedule))
   \<and> node_ids (built_graph parallel_schedule) = [''A'', ''B'', ''C'', ''D'']
   \<and> map_of (nodes (built_graph parallel_schedule)) ''A'' =
       Some \<lparr>attr_name = ''Site setup'', attr_duration = 10, attr_trade = ''general'',
             attr_status = ''not_started''\<rparr>
   \<and> (''A'', ''B'') \<in> set (edges (built_graph parallel_schedule))
   \<and> (''B'', ''A'') \<notin> set (edges (built_graph parallel_schedule))"
proof -
  have d: "distinct (map act_id (sched_activities parallel_schedule))"
    by (simp add: parallel_schedule_def schedule_of_def activity_def)
  note t = build_graph_nodes_and_edges[OF d]
  have 1: "node_ids (built_graph parallel_schedule) = [''A'', ''B'', ''C'', ''D'']"
    using t by (simp add: parallel_schedule_def schedule_of_def activity_def)
  have 2: "map_of (nodes (built_graph parallel_schedule)) ''A'' =
       Some \<lparr>attr_name = ''Site setup'', attr_duration = 10, attr_trade = ''general'',
             attr_status = ''not_started''\<rparr>"
    using conjunct1[OF conjunct2[OF t]]
    by (simp add: parallel_schedule_def schedule_of_def activity_def)
  have 3: "(''A'', ''B'') \<in> set (edges (built_graph parallel_schedule))"
    using conjunct1[OF conjunct2[OF conjunct2[OF t]]]
    by (simp add: parallel_schedule_def schedule_of_def activity_def)
  have 4: "(''B'', ''A'') \<notin> set (edges (built_graph parallel_schedule))"
    using conjunct1[OF conjunct2[OF conjunct2[OF t]]]
    by (simp add: parallel_schedule_def schedule_of_def activity_def)
  from d 1 2 3 4 show ?thesis by blast
qed

theorem build_graph_self_reference_counterexample:
  "distinct (map act_id (sched_activities self_loop_schedule))
   \<and> (''A'', ''A'') \<in> set (edges (built_graph self_loop_schedule))
   \<and> \<not> (\<exists>a \<in> set (sched_activities self_loop_schedule).
           act_id a = ''A'' \<and> ''A'' \<in> set (predecessors a) \<and> ''A'' \<noteq> act_id a
           \<and> ''A'' \<in> act_id ` set (sched_activities self_loop_schedule))"
  by (simp add: edges_built_graph self_loop_schedule_def schedule_of_def activity_def)


section \<open>all\_simple\_paths generates the simple paths\<close>


lemma in_successors: "w \<in> set (successors G v) \<longleftrightarrow> (v, w) \<in> set (edges G)"
  by (force simp: successors_def)

lemma distinct_hd_last: "distinct q \<Longrightarrow> q \<noteq> [] \<Longrightarrow> hd q = last q \<Longrightarrow> q = [hd q]"
  by (cases q) (auto split: if_splits)

lemma is_simple_path_same: "is_simple_path G t t q \<longleftrightarrow> q = [t] \<and> t \<in> set (node_ids G)"
proof
  assume a: "is_simple_path G t t q"
  hence "q = [hd q]" using distinct_hd_last[of q] by (simp add: is_simple_path_def)
  with a show "q = [t] \<and> t \<in> set (node_ids G)"
    by (cases q) (auto simp: is_simple_path_def)
qed (simp add: is_simple_path_def)

lemma is_simple_path_step:
  assumes "v \<noteq> t"
  shows "is_simple_path G v t q \<longleftrightarrow>
     (\<exists>q'. q = v # q' \<and> v \<in> set (node_ids G) \<and> v \<notin> set q' \<and> (v, hd q') \<in> set (edges G)
           \<and> is_simple_path G (hd q') t q')"
proof
  assume a: "is_simple_path G v t q"
  then obtain q' where q: "q = v # q'" by (cases q) (auto simp: is_simple_path_def)
  with a assms have "q' \<noteq> []" by (auto simp: is_simple_path_def)
  then obtain w q'' where q': "q' = w # q''" by (cases q') auto
  with a q show "\<exists>q'. q = v # q' \<and> v \<in> set (node_ids G) \<and> v \<notin> set q' \<and> (v, hd q') \<in> set (edges G)
           \<and> is_simple_path G (hd q') t q'"
    by (auto simp: is_simple_path_def)
next
  assume "\<exists>q'. q = v # q' \<and> v \<in> set (node_ids G) \<and> v \<notin> set q' \<and> (v, hd q') \<in> set (edges G)
           \<and> is_simple_path G (hd q') t q'"
  then obtain q' where q: "q = v # q'" "v \<in> set (node_ids G)" "v \<notin> set q'"
     "(v, hd q') \<in> set (edges G)" "is_simple_path G (hd q') t q'" by blast
  then obtain w q'' where q': "q' = w # q''" by (cases q') (auto simp: is_simple_path_def)
  with q show "is_simple_path G v t q" by (auto simp: is_simple_path_def)
qed

lemma all_nodes_used:
  assumes "distinct xs" "set xs \<subseteq> set ids" "length ids \<le> length xs"
  shows "set xs = set ids"
proof -
  have "card (set ids) \<le> length ids" by (rule card_length)
  also have "\<dots> \<le> length xs" by fact
  also have "\<dots> = card (set xs)" using assms(1) by (simp add: distinct_card)
  finally show ?thesis using assms(2) by (simp add: card_seteq)
qed

lemma simple_paths_from_single:
  "wf_graph G \<Longrightarrow> distinct (path @ [v]) \<Longrightarrow> set (path @ [v]) \<subseteq> set (node_ids G) \<Longrightarrow> t \<notin> set path \<Longrightarrow>
     set (simple_paths_from G [t] path v) =
       {path @ q | q. is_simple_path G v t q \<and> set q \<inter> set path = {}}"
proof (induction G "[t]" path v rule: simple_paths_from.induct)
  case (1 G path v)
  note wf = "1.prems"(1)
  show ?case
  proof (cases "v = t")
    case True
    have "simple_paths_from G [t] path v = [path @ [t]]"
      using True by (subst simple_paths_from.simps) simp
    moreover have "{path @ q | q. is_simple_path G v t q \<and> set q \<inter> set path = {}} = {path @ [t]}"
      using True "1.prems" by (auto simp: is_simple_path_same)
    ultimately show ?thesis by simp
  next
    case False
    show ?thesis
    proof (cases "length path < length (nodes G) - 1")
      case cut: True
      have cond: "length path < length (nodes G) - 1 \<and> (\<exists>t' \<in> set [t]. t' \<notin> set path \<and> t' \<noteq> v)"
        using cut False "1.prems" by simp
      have unf: "simple_paths_from G [t] path v =
          concat (map (simple_paths_from G [t] (path @ [v]))
                      (filter (\<lambda>w. w \<notin> set (path @ [v])) (successors G v)))"
        using False cond by (subst simple_paths_from.simps) simp
      have IH: "set (simple_paths_from G [t] (path @ [v]) w) =
          {(path @ [v]) @ q | q. is_simple_path G w t q \<and> set q \<inter> set (path @ [v]) = {}}"
        if w: "(v, w) \<in> set (edges G)" "w \<notin> set (path @ [v])" for w
      proof (rule "1.hyps"[OF cond])
        show "w \<in> set (filter (\<lambda>w. w \<notin> set (path @ [v])) (successors G v))"
          using w by (simp add: in_successors)
        show "wf_graph G" by (rule wf)
        show "distinct ((path @ [v]) @ [w])" using w "1.prems" by auto
        have "w \<in> set (node_ids G)" using w(1) wf by (force simp: wf_graph_def)
        thus "set ((path @ [v]) @ [w]) \<subseteq> set (node_ids G)" using "1.prems" by auto
        show "t \<notin> set (path @ [v])" using False "1.prems" by auto
      qed
      show ?thesis
      proof (intro set_eqI iffI)
        fix p assume "p \<in> set (simple_paths_from G [t] path v)"
        then obtain w where w: "(v, w) \<in> set (edges G)" "w \<notin> set (path @ [v])"
          and p: "p \<in> set (simple_paths_from G [t] (path @ [v]) w)"
          by (auto simp: unf in_successors)
        from p IH[OF w] obtain q where q: "p = (path @ [v]) @ q" "is_simple_path G w t q"
          "set q \<inter> set (path @ [v]) = {}" by auto
        have "hd q = w" using q(2) by (simp add: is_simple_path_def)
        hence "is_simple_path G v t (v # q)"
          using q w "1.prems" by (subst is_simple_path_step[OF False]) auto
        moreover have "set (v # q) \<inter> set path = {}" using q(3) "1.prems" by auto
        ultimately show "p \<in> {path @ q | q. is_simple_path G v t q \<and> set q \<inter> set path = {}}"
          using q(1) by force
      next
        fix p assume "p \<in> {path @ q | q. is_simple_path G v t q \<and> set q \<inter> set path = {}}"
        then obtain q where q: "p = path @ q" "is_simple_path G v t q" "set q \<inter> set path = {}"
          by auto
        from q(2) obtain q' where q': "q = v # q'" "v \<notin> set q'" "(v, hd q') \<in> set (edges G)"
          "is_simple_path G (hd q') t q'"
          using is_simple_path_step[OF False] by blast
        have ne: "q' \<noteq> []" using q'(4) by (simp add: is_simple_path_def)
        hence hdin: "hd q' \<in> set q'" by simp
        have w2: "hd q' \<notin> set (path @ [v])" using hdin q'(1,2) q(3) by auto
        have "set q' \<inter> set (path @ [v]) = {}" using q'(1,2) q(3) by auto
        hence "(path @ [v]) @ q' \<in> set (simple_paths_from G [t] (path @ [v]) (hd q'))"
          using IH[OF q'(3) w2] q'(4) by blast
        thus "p \<in> set (simple_paths_from G [t] path v)"
          using q(1) q'(1,3) w2 by (auto simp: unf in_successors)
      qed
    next
      case nocut: False
      have "simple_paths_from G [t] path v = []"
        using False nocut by (subst simple_paths_from.simps) simp
      moreover have "{path @ q | q. is_simple_path G v t q \<and> set q \<inter> set path = {}} = {}"
      proof -
        have "length (node_ids G) \<le> length (path @ [v])" using nocut by (simp add: node_ids_def)
        hence all: "set (path @ [v]) = set (node_ids G)"
          using all_nodes_used[of "path @ [v]" "node_ids G"] "1.prems" by blast
        {
          fix q assume q: "is_simple_path G v t q" "set q \<inter> set path = {}"
          from q(1) obtain q' where q': "q = v # q'" "v \<notin> set q'" "(v, hd q') \<in> set (edges G)"
            "is_simple_path G (hd q') t q'"
            using is_simple_path_step[OF False] by blast
          have ne: "q' \<noteq> []" using q'(4) by (simp add: is_simple_path_def)
          hence hdin: "hd q' \<in> set q'" by simp
          have "hd q' \<in> set (node_ids G)" using q'(4) hdin by (auto simp: is_simple_path_def)
          hence "hd q' \<in> set (path @ [v])" using all by simp
          hence False using hdin q'(1,2) q(2) by auto
        }
        thus ?thesis by blast
      qed
      ultimately show ?thesis by simp
    qed
  qed
qed

lemma all_simple_paths_correct:
  assumes "wf_graph G" "s \<in> set (node_ids G)" "t \<in> set (node_ids G)"
  shows "\<exists>ps. all_simple_paths G s t = Inr ps \<and> set ps = {p. is_simple_path G s t p}"
  using assms simple_paths_from_single[OF assms(1), of "[]" s t]
  by (simp add: all_simple_paths_def)



subsection \<open>The loops of find\_critical\_path\<close>

lemma scan_sinks_fold:
  assumes "wf_graph G" "s \<in> set (node_ids G)"
  shows "scan_sinks self G s snks st =
     Inr (fold (longer_path self)
            (concat (map (\<lambda>t. case all_simple_paths G s t of Inl e \<Rightarrow> [] | Inr ps \<Rightarrow> ps) snks)) st)"
proof (induction snks arbitrary: st)
  case Nil
  show ?case by simp
next
  case (Cons t snks)
  have "\<exists>ps. all_simple_paths G s t = Inr ps"
    using assms(2) by (simp add: all_simple_paths_def Let_def)
  then obtain ps where "all_simple_paths G s t = Inr ps" by blast
  thus ?case using Cons.IH by simp
qed

lemma scan_sources_fold:
  assumes "wf_graph G" "set srcs \<subseteq> set (node_ids G)"
  shows "scan_sources self G srcs snks st =
     Inr (fold (longer_path self)
            (concat (map (\<lambda>s. concat (map (\<lambda>t. case all_simple_paths G s t of
                 Inl e \<Rightarrow> [] | Inr ps \<Rightarrow> ps) snks)) srcs)) st)"
  using assms(2)
proof (induction srcs arbitrary: st)
  case Nil
  show ?case by simp
next
  case (Cons s srcs)
  thus ?case using scan_sinks_fold[OF assms(1), of s self snks st] by simp
qed

lemma sources_subset: "set (sources G) \<subseteq> set (node_ids G)"
  by (auto simp: sources_def)

lemma sinks_subset: "set (sinks G) \<subseteq> set (node_ids G)"
  by (auto simp: sinks_def)

lemma scan_sources_candidates:
  assumes "wf_graph G"
  shows "scan_sources self G (sources G) (sinks G) st =
     Inr (fold (longer_path self) (candidate_paths G) st)"
  unfolding candidate_paths_def
  by (rule scan_sources_fold[OF assms sources_subset])

lemma set_candidate_paths:
  assumes "wf_graph G"
  shows "set (candidate_paths G) = source_sink_paths G"
proof -
  have "set (case all_simple_paths G s t of Inl e \<Rightarrow> [] | Inr ps \<Rightarrow> ps) = {p. is_simple_path G s t p}"
    if "s \<in> set (sources G)" "t \<in> set (sinks G)" for s t
  proof -
    have "s \<in> set (node_ids G)" "t \<in> set (node_ids G)"
      using that sources_subset sinks_subset by auto
    from all_simple_paths_correct[OF assms this] show ?thesis by auto
  qed
  thus ?thesis
    unfolding candidate_paths_def source_sink_paths_def by auto
qed

lemma fold_longer_path_snd:
  "snd (fold (longer_path self) ps st) = Max (insert (snd st) (path_duration self ` set ps))"
proof (induction ps arbitrary: st)
  case Nil
  show ?case by simp
next
  case (Cons p ps)
  have "snd (longer_path self p st) = max (snd st) (path_duration self p)"
    by (auto simp: longer_path_def Let_def)
  hence "Max (insert (snd (longer_path self p st)) (path_duration self ` set ps))
       = Max (insert (snd st) (insert (path_duration self p) (path_duration self ` set ps)))"
    by (cases "set ps = {}") (simp_all add: max.assoc)
  thus ?case using Cons.IH[of "longer_path self p st"] by simp
qed

lemma fold_longer_path_fst:
  assumes "st = ([], 0) \<or> (fst st \<in> A \<and> path_duration self (fst st) = snd st \<and> 0 < snd st)"
    and "set ps \<subseteq> A"
  shows "fold (longer_path self) ps st = ([], 0) \<or>
     (fst (fold (longer_path self) ps st) \<in> A \<and>
      path_duration self (fst (fold (longer_path self) ps st)) = snd (fold (longer_path self) ps st) \<and>
      0 < snd (fold (longer_path self) ps st))"
  using assms
proof (induction ps arbitrary: st)
  case Nil
  thus ?case by simp
next
  case (Cons p ps)
  have "longer_path self p st = ([], 0) \<or>
     (fst (longer_path self p st) \<in> A \<and>
      path_duration self (fst (longer_path self p st)) = snd (longer_path self p st) \<and>
      0 < snd (longer_path self p st))"
    using Cons.prems by (auto simp: longer_path_def Let_def)
  from Cons.IH[OF this] Cons.prems(2) show ?case by simp
qed

lemma fold_longer_path_zero:
  assumes "\<forall>p \<in> set ps. path_duration self p = 0"
  shows "fold (longer_path self) ps ([], 0) = ([], 0)"
  using assms by (induction ps) (auto simp: longer_path_def)

subsection \<open>Durations in a built engine\<close>

lemma map_of_nodes_built:
  "map_of (nodes (built_graph s)) v =
     map_option attrs_of (map_of (index_activities (sched_activities s)) v)"
  unfolding nodes_built_graph_index by (simp add: map_of_map)

lemma node_duration_built:
  "node_duration (built_graph s) v =
     (case map_of (activities (built s)) v of None \<Rightarrow> 0 | Some a \<Rightarrow> duration_days a)"
  by (simp add: node_duration_def map_of_nodes_built built_eq attrs_of_def split: option.splits)

lemma path_duration_built:
  "path_duration (built s) p = sum_of_durations (built_graph s) p"
proof (induction p)
  case Nil
  show ?case by (simp add: path_duration_def sum_of_durations_def List.map_filter_simps)
next
  case (Cons v p)
  thus ?case
    by (simp add: path_duration_def sum_of_durations_def List.map_filter_simps
        node_duration_built split: option.splits)
qed

lemma nodes_built_nonempty:
  "nodes (built_graph s) = [] \<longleftrightarrow> sched_activities s = []"
proof -
  have "set (node_ids (built_graph s)) = {} \<longleftrightarrow> set (sched_activities s) = {}"
    unfolding set_node_ids_built_graph by simp
  thus ?thesis by (simp add: node_ids_def)
qed

subsection \<open>The three branches of find\_critical\_path on a built engine\<close>

lemma find_critical_path_fallback:
  assumes "sched_activities s \<noteq> []"
    and "sources (built_graph s) = [] \<or> sinks (built_graph s) = []"
  shows "find_critical_path (built s) =
     Inr \<lparr>path_activities = node_ids (built_graph s),
          total_duration_days = sum_of_durations (built_graph s) (node_ids (built_graph s)),
          bottleneck_activity = None, path_risk_level = MEDIUM\<rparr>"
  using assms
  by (simp add: find_critical_path_def built_eq nodes_built_nonempty
      path_duration_built[unfolded built_eq])

lemma find_critical_path_main:
  assumes "sources (built_graph s) \<noteq> []" "sinks (built_graph s) \<noteq> []"
  shows "find_critical_path (built s) =
     (let r = fold (longer_path (built s)) (candidate_paths (built_graph s)) ([], 0)
      in Inr \<lparr>path_activities = fst r, total_duration_days = snd r,
              bottleneck_activity = find_bottleneck (built s) (fst r),
              path_risk_level = assess_path_risk (built s) (fst r)\<rparr>)"
proof -
  have "nodes (built_graph s) \<noteq> []"
    using assms(1) by (auto simp: sources_def node_ids_def)
  thus ?thesis
    using assms scan_sources_candidates[OF wf_built_graph, of "built s" s "([], 0)"]
    by (simp add: find_critical_path_def built_eq Let_def split: prod.splits)
qed



subsection \<open>The fallback branch and the all-zero case\<close>

lemma set_update_subset: "set (AList.update k v al) \<subseteq> insert (k, v) (set al)"
  by (induction al) auto

lemma fold_update_entries:
  "set (fold (\<lambda>a d. AList.update (k a) (f a) d) acts acc) \<subseteq> set acc \<union> (\<lambda>a. (k a, f a)) ` set acts"
proof (induction acts arbitrary: acc)
  case Nil
  show ?case by simp
next
  case (Cons a acts)
  show ?case using Cons.IH[of "AList.update (k a) (f a) acc"] set_update_subset[of "k a" "f a" acc]
    by auto
qed

lemma index_activities_entries:
  "map_of (index_activities acts) v = Some a \<Longrightarrow> a \<in> set acts \<and> act_id a = v"
  unfolding index_activities_def
  using fold_update_entries[of act_id "\<lambda>a. a" acts "[]"] by (auto dest!: map_of_SomeD)

lemma sum_of_durations_all_zero:
  assumes "\<forall>a \<in> set (sched_activities s). duration_days a = 0"
  shows "sum_of_durations (built_graph s) p = 0"
proof -
  have "node_duration (built_graph s) v = 0" for v
    using assms index_activities_entries[of "sched_activities s" v]
    by (auto simp: node_duration_built built_eq split: option.splits)
  thus ?thesis by (simp add: sum_of_durations_def)
qed

lemma find_bottleneck_Nil: "find_bottleneck self [] = None"
  by (simp add: find_bottleneck_def)

text \<open>
  Claim C4. On an engine built from a schedule with at least one activity whose graph has no
  source or no sink, \<open>find_critical_path\<close> returns a result and raises nothing: the path is
  the list of all nodes, the total duration the sum of the durations of all nodes, there is
  no bottleneck, and the risk level is medium.
\<close>
theorem find_critical_path_fallback_branch:
  assumes "sched_activities schedule \<noteq> []"
    and "sources (built_graph schedule) = [] \<or> sinks (built_graph schedule) = []"
  shows "find_critical_path (built schedule) =
     Inr \<lparr>path_activities = node_ids (built_graph schedule),
          total_duration_days = sum_of_durations (built_graph schedule) (node_ids (built_graph schedule)),
          bottleneck_activity = None, path_risk_level = MEDIUM\<rparr>"
  using assms by (rule find_critical_path_fallback)

theorem find_critical_path_fallback_branch_witness:
  "find_critical_path (built two_cycle_schedule) =
     Inr \<lparr>path_activities = [''A'', ''B''], total_duration_days = 7,
          bottleneck_activity = None, path_risk_level = MEDIUM\<rparr>"
proof -
  have h1: "sched_activities two_cycle_schedule \<noteq> []"
    by (simp add: two_cycle_schedule_def schedule_of_def)
  have "sources (built_graph two_cycle_schedule) = []" by code_simp
  hence h2: "sources (built_graph two_cycle_schedule) = [] \<or> sinks (built_graph two_cycle_schedule) = []"
    by simp
  have e1: "node_ids (built_graph two_cycle_schedule) = [''A'', ''B'']" by code_simp
  have e2: "sum_of_durations (built_graph two_cycle_schedule) [''A'', ''B''] = 7" by code_simp
  show ?thesis
    using find_critical_path_fallback_branch[OF h1 h2] by (simp add: e1 e2)
qed

text \<open>
  Claim C10. When the graph has a source and a sink and every simple path from a source to a
  sink has duration zero (so in particular when every activity has duration zero, lemma
  \<open>sum_of_durations_all_zero\<close>), \<open>find_critical_path\<close> returns the empty path, duration
  zero, no bottleneck and the lowest risk level, although the graph has nodes.
\<close>
theorem find_critical_path_zero_durations:
  assumes "sources (built_graph schedule) \<noteq> []" and "sinks (built_graph schedule) \<noteq> []"
    and "\<forall>p \<in> source_sink_paths (built_graph schedule). sum_of_durations (built_graph schedule) p = 0"
  shows "find_critical_path (built schedule) =
     Inr \<lparr>path_activities = [], total_duration_days = 0,
          bottleneck_activity = None, path_risk_level = LOW\<rparr>"
proof -
  have "\<forall>p \<in> set (candidate_paths (built_graph schedule)). path_duration (built schedule) p = 0"
    using assms(3) by (simp add: set_candidate_paths[OF wf_built_graph] path_duration_built)
  hence "fold (longer_path (built schedule)) (candidate_paths (built_graph schedule)) ([], 0) = ([], 0)"
    by (rule fold_longer_path_zero)
  thus ?thesis
    using find_critical_path_main[OF assms(1,2)]
    by (simp add: find_bottleneck_Nil assess_path_risk_def)
qed

theorem find_critical_path_zero_durations_witness:
  "node_ids (built_graph milestones_schedule) = [''M1'', ''M2'']
   \<and> find_critical_path (built milestones_schedule) =
       Inr \<lparr>path_activities = [], total_duration_days = 0,
            bottleneck_activity = None, path_risk_level = LOW\<rparr>"
proof -
  have h1: "sources (built_graph milestones_schedule) \<noteq> []" by code_simp
  have h2: "sinks (built_graph milestones_schedule) \<noteq> []" by code_simp
  have "\<forall>a \<in> set (sched_activities milestones_schedule). duration_days a = 0"
    by (simp add: milestones_schedule_def schedule_of_def activity_def)
  hence h3: "\<forall>p \<in> source_sink_paths (built_graph milestones_schedule).
      sum_of_durations (built_graph milestones_schedule) p = 0"
    by (simp add: sum_of_durations_all_zero)
  have e: "node_ids (built_graph milestones_schedule) = [''M1'', ''M2'']" by code_simp
  show ?thesis using find_critical_path_zero_durations[OF h1 h2 h3] e by simp
qed



subsection \<open>is\_directed\_acyclic\_graph decides acyclicity\<close>

lemma trancl_target: "(a, b) \<in> r\<^sup>+ \<Longrightarrow> \<exists>c. (c, b) \<in> r"
  by (erule tranclE) auto

lemma unsorted_nodes_acyclic:
  "unsorted_nodes G rem = [] \<longleftrightarrow> acyclic (set (edges G) \<inter> set rem \<times> set rem)"
proof (induction G rem rule: unsorted_nodes.induct)
  case (1 G rem)
  let ?R = "\<lambda>xs. set (edges G) \<inter> set xs \<times> set xs"
  let ?z = "filter (\<lambda>v. \<forall>e \<in> set (edges G). snd e = v \<longrightarrow> fst e \<notin> set rem) rem"
  let ?rem' = "filter (\<lambda>v. v \<notin> set ?z) rem"
  show ?case
  proof (cases "?z = []")
    case True
    hence unf: "unsorted_nodes G rem = rem"
      by (subst unsorted_nodes.simps) (simp add: Let_def)
    show ?thesis
    proof (cases "rem = []")
      case True
      thus ?thesis using unf by (simp add: acyclic_def)
    next
      case False
      have "\<not> acyclic (?R rem)"
      proof
        assume "acyclic (?R rem)"
        moreover have "finite (?R rem)" by simp
        ultimately have "wf (?R rem)" by (rule finite_acyclic_wf[rotated])
        moreover obtain x where "x \<in> set rem" using False by (cases rem) auto
        ultimately obtain m where m: "m \<in> set rem" "\<And>y. (y, m) \<in> ?R rem \<Longrightarrow> y \<notin> set rem"
          by (rule wfE_min[where Q = "set rem"]) blast+
        from m(1) True have "\<not> (\<forall>e \<in> set (edges G). snd e = m \<longrightarrow> fst e \<notin> set rem)"
          by (auto simp: filter_empty_conv)
        then obtain e where "e \<in> set (edges G)" "snd e = m" "fst e \<in> set rem" by blast
        hence "(fst e, m) \<in> ?R rem" using m(1) by (cases e) auto
        with m(2) \<open>fst e \<in> set rem\<close> show False by blast
      qed
      thus ?thesis using unf False by simp
    qed
  next
    case False
    hence unf: "unsorted_nodes G rem = unsorted_nodes G ?rem'"
      by (subst unsorted_nodes.simps) (simp add: Let_def)
    have IH: "unsorted_nodes G ?rem' = [] \<longleftrightarrow> acyclic (?R ?rem')"
      using "1.IH"[OF refl False] .
    have sub: "?R ?rem' \<subseteq> ?R rem" by auto
    have target: "b \<in> set ?rem'" if "(a, b) \<in> ?R rem" for a b
      using that by force
    have lift: "(a, b) \<in> (?R ?rem')\<^sup>+" if "(a, b) \<in> (?R rem)\<^sup>+" "a \<in> set ?rem'" for a b
      using that
    proof (induction rule: trancl_induct)
      case (base y)
      thus ?case using target[of a y] by auto
    next
      case (step y z)
      obtain c where "(c, y) \<in> ?R rem" using trancl_target[OF step.hyps(1)] by blast
      hence "y \<in> set ?rem'" by (rule target)
      moreover have "z \<in> set ?rem'" using step.hyps(2) by (rule target)
      ultimately have "(y, z) \<in> ?R ?rem'" using step.hyps(2) by auto
      with step.IH[OF step.prems] show ?case by (rule trancl_into_trancl)
    qed
    have "acyclic (?R rem) \<longleftrightarrow> acyclic (?R ?rem')"
    proof
      assume "acyclic (?R rem)"
      thus "acyclic (?R ?rem')" using sub by (rule acyclic_subset)
    next
      assume a: "acyclic (?R ?rem')"
      show "acyclic (?R rem)"
        unfolding acyclic_def
      proof (intro allI notI)
        fix x assume x: "(x, x) \<in> (?R rem)\<^sup>+"
        obtain c where "(c, x) \<in> ?R rem" using trancl_target[OF x] by blast
        hence "x \<in> set ?rem'" by (rule target)
        from lift[OF x this] a show False by (simp add: acyclic_def)
      qed
    qed
    thus ?thesis using unf IH by simp
  qed
qed

lemma wf_graph_edges: "wf_graph G \<Longrightarrow> set (edges G) \<subseteq> set (node_ids G) \<times> set (node_ids G)"
  by (force simp: wf_graph_def)

lemma is_directed_acyclic_graph_iff:
  assumes "wf_graph G"
  shows "is_directed_acyclic_graph G \<longleftrightarrow> acyclic (set (edges G))"
proof -
  have "set (edges G) \<inter> set (node_ids G) \<times> set (node_ids G) = set (edges G)"
    using wf_graph_edges[OF assms] by blast
  thus ?thesis by (simp add: is_directed_acyclic_graph_def unsorted_nodes_acyclic)
qed

subsection \<open>In an acyclic graph every node reaches a sink\<close>

lemma successively_reach:
  "successively (\<lambda>u v. (u, v) \<in> r) p \<Longrightarrow> x \<in> set p \<Longrightarrow> (hd p, x) \<in> r\<^sup>*"
proof (induction p arbitrary: x rule: induct_list012)
  case 1
  thus ?case by simp
next
  case (2 a)
  thus ?case by simp
next
  case (3 a b p)
  show ?case
  proof (cases "x = a")
    case True
    thus ?thesis by simp
  next
    case False
    hence "x \<in> set (b # p)" using "3.prems" by simp
    moreover have "successively (\<lambda>u v. (u, v) \<in> r) (b # p)" using "3.prems" by simp
    ultimately have "(b, x) \<in> r\<^sup>*" using "3.IH"(2)[of x] by simp
    moreover have "(a, b) \<in> r" using "3.prems" by simp
    ultimately show ?thesis by simp
  qed
qed

lemma out_degree_zero: "out_degree G v = 0 \<longleftrightarrow> (\<forall>w. (v, w) \<notin> set (edges G))"
  by (auto simp: out_degree_def filter_empty_conv)

lemma in_degree_zero: "in_degree G v = 0 \<longleftrightarrow> (\<forall>u. (u, v) \<notin> set (edges G))"
  by (auto simp: in_degree_def filter_empty_conv)

lemma reaches_sink:
  assumes wf: "wf_graph G" and ac: "acyclic (set (edges G))"
  shows "v \<in> set (node_ids G) \<Longrightarrow> \<exists>t p. t \<in> set (sinks G) \<and> is_simple_path G v t p"
proof -
  have "wf ((set (edges G))\<inverse>)"
    using ac by (intro finite_acyclic_wf_converse) simp_all
  thus "v \<in> set (node_ids G) \<Longrightarrow> \<exists>t p. t \<in> set (sinks G) \<and> is_simple_path G v t p"
  proof (induction v rule: wf_induct_rule)
    case (less v)
    show ?case
    proof (cases "out_degree G v = 0")
      case True
      hence "v \<in> set (sinks G)" using less.prems by (simp add: sinks_def)
      moreover have "is_simple_path G v v [v]" using less.prems by (simp add: is_simple_path_same)
      ultimately show ?thesis by blast
    next
      case False
      then obtain w where w: "(v, w) \<in> set (edges G)" by (auto simp: out_degree_zero)
      hence "w \<in> set (node_ids G)" using wf_graph_edges[OF wf] by blast
      with less.IH[of w] w obtain t p where tp: "t \<in> set (sinks G)" "is_simple_path G w t p"
        by auto
      have hd: "hd p = w" and succ: "successively (\<lambda>u v. (u, v) \<in> set (edges G)) p"
        and last: "last p = t" and ne: "p \<noteq> []"
        using tp(2) by (simp_all add: is_simple_path_def)
      have notin: "v \<notin> set p"
      proof
        assume "v \<in> set p"
        hence "(w, v) \<in> (set (edges G))\<^sup>*" using successively_reach[OF succ] hd by auto
        with w have "(v, v) \<in> (set (edges G))\<^sup>+" by (rule rtrancl_into_trancl2)
        with ac show False by (simp add: acyclic_def)
      qed
      have "t \<in> set p" using last ne last_in_set by blast
      hence "v \<noteq> t" using notin by auto
      hence "is_simple_path G v t (v # p)"
        using is_simple_path_step[of v t G "v # p"] notin w hd tp(2) less.prems by auto
      with tp(1) show ?thesis by blast
    qed
  qed
qed

lemma source_sink_paths_nonempty:
  assumes "wf_graph G" "acyclic (set (edges G))" "sources G \<noteq> []"
  shows "source_sink_paths G \<noteq> {}"
proof -
  obtain s where s: "s \<in> set (sources G)" using assms(3) by (cases "sources G") auto
  hence "s \<in> set (node_ids G)" using sources_subset by auto
  from reaches_sink[OF assms(1,2) this] s show ?thesis
    by (auto simp: source_sink_paths_def)
qed

text \<open>
  Claim C1. For a graph without cycles that has a source and a sink, \<open>find_critical_path\<close>
  returns a result whose total duration is the maximum, over all simple paths from a source
  to a sink, of the sum of the durations of the nodes of the path.
\<close>
theorem find_critical_path_longest_duration:
  assumes "acyclic (set (edges (built_graph schedule)))"
    and "sources (built_graph schedule) \<noteq> []" and "sinks (built_graph schedule) \<noteq> []"
  shows "\<exists>r. find_critical_path (built schedule) = Inr r \<and>
     total_duration_days r =
       Max (sum_of_durations (built_graph schedule) ` source_sink_paths (built_graph schedule))"
proof -
  let ?G = "built_graph schedule"
  let ?r = "fold (longer_path (built schedule)) (candidate_paths ?G) ([], 0)"
  have set_eq: "set (candidate_paths ?G) = source_sink_paths ?G"
    by (rule set_candidate_paths[OF wf_built_graph])
  have ne: "source_sink_paths ?G \<noteq> {}"
    by (rule source_sink_paths_nonempty[OF wf_built_graph assms(1,2)])
  have fin: "finite (source_sink_paths ?G)" using set_eq[symmetric] by simp
  have dur: "path_duration (built schedule) ` set (candidate_paths ?G)
      = sum_of_durations ?G ` source_sink_paths ?G"
    by (simp add: set_eq path_duration_built)
  have "snd ?r = Max (insert 0 (sum_of_durations ?G ` source_sink_paths ?G))"
    using fold_longer_path_snd[of "built schedule" "candidate_paths ?G" "([], 0)"] dur by simp
  also have "\<dots> = Max (sum_of_durations ?G ` source_sink_paths ?G)"
    using ne fin by (simp add: Max_insert)
  finally show ?thesis
    using find_critical_path_main[OF assms(2,3)] by (simp add: Let_def)
qed

theorem find_critical_path_longest_duration_witness:
  "find_critical_path (built parallel_schedule) =
     Inr \<lparr>path_activities = [''A'', ''B'', ''D''], total_duration_days = 84,
          bottleneck_activity = Some ''B'', path_risk_level = LOW\<rparr>
   \<and> Max (sum_of_durations (built_graph parallel_schedule) `
          source_sink_paths (built_graph parallel_schedule)) = 84"
proof -
  have "is_directed_acyclic_graph (built_graph parallel_schedule)" by code_simp
  hence h1: "acyclic (set (edges (built_graph parallel_schedule)))"
    by (simp add: is_directed_acyclic_graph_iff[OF wf_built_graph])
  have h2: "sources (built_graph parallel_schedule) \<noteq> []" by code_simp
  have h3: "sinks (built_graph parallel_schedule) \<noteq> []" by code_simp
  have e: "find_critical_path (built parallel_schedule) =
     Inr \<lparr>path_activities = [''A'', ''B'', ''D''], total_duration_days = 84,
          bottleneck_activity = Some ''B'', path_risk_level = LOW\<rparr>" by code_simp
  show ?thesis
    using find_critical_path_longest_duration[OF h1 h2 h3] e by auto
qed



subsection \<open>The bottleneck loop\<close>


lemma bottleneck_step_eq:
  "bottleneck_step self v st = (if dur_of self v > snd st then (Some v, dur_of self v) else st)"
  by (simp add: bottleneck_step_def dur_of_def split: option.splits)

lemma fold_bottleneck_unchanged:
  "\<forall>x \<in> set path. dur_of self x \<le> snd st \<Longrightarrow> fold (bottleneck_step self) path st = st"
  by (induction path) (auto simp: bottleneck_step_eq)

lemma fold_bottleneck_changed:
  "\<exists>x \<in> set path. dur_of self x > snd st \<Longrightarrow>
   \<exists>b. fold (bottleneck_step self) path st = (Some b, dur_of self b) \<and> b \<in> set path
     \<and> snd st < dur_of self b
     \<and> (\<forall>x \<in> set path. dur_of self x \<le> dur_of self b)
     \<and> (\<forall>x \<in> set (takeWhile (\<lambda>x. x \<noteq> b) path). dur_of self x < dur_of self b)"
proof (induction path arbitrary: st)
  case Nil
  thus ?case by simp
next
  case (Cons v path)
  show ?case
  proof (cases "dur_of self v > snd st")
    case True
    hence step: "bottleneck_step self v st = (Some v, dur_of self v)"
      by (simp add: bottleneck_step_eq)
    show ?thesis
    proof (cases "\<exists>x \<in> set path. dur_of self x > dur_of self v")
      case True
      from Cons.IH[of "(Some v, dur_of self v)"] True
      obtain b where b: "fold (bottleneck_step self) path (Some v, dur_of self v) = (Some b, dur_of self b)"
        "b \<in> set path" "dur_of self v < dur_of self b"
        "\<forall>x \<in> set path. dur_of self x \<le> dur_of self b"
        "\<forall>x \<in> set (takeWhile (\<lambda>x. x \<noteq> b) path). dur_of self x < dur_of self b"
        by auto
      have "v \<noteq> b" using b(3) by auto
      thus ?thesis using b step \<open>dur_of self v > snd st\<close> by (intro exI[of _ b]) auto
    next
      case False
      hence "fold (bottleneck_step self) path (Some v, dur_of self v) = (Some v, dur_of self v)"
        by (intro fold_bottleneck_unchanged) (auto simp: not_less)
      thus ?thesis using step False True by (intro exI[of _ v]) (auto simp: not_less)
    qed
  next
    case False
    hence step: "bottleneck_step self v st = st" by (simp add: bottleneck_step_eq)
    have "\<exists>x \<in> set path. dur_of self x > snd st" using Cons.prems False by auto
    from Cons.IH[OF this]
    obtain b where b: "fold (bottleneck_step self) path st = (Some b, dur_of self b)"
        "b \<in> set path" "snd st < dur_of self b"
        "\<forall>x \<in> set path. dur_of self x \<le> dur_of self b"
        "\<forall>x \<in> set (takeWhile (\<lambda>x. x \<noteq> b) path). dur_of self x < dur_of self b"
      by auto
    have "v \<noteq> b" using b(3) False by auto
    thus ?thesis using b step False by (intro exI[of _ b]) (auto simp: not_less)
  qed
qed


lemma path_duration_dur_of: "path_duration self p = sum_list (map (dur_of self) p)"
  by (induction p)
     (simp_all add: path_duration_def dur_of_def List.map_filter_simps split: option.splits)

lemma dur_of_built: "dur_of (built s) = node_duration (built_graph s)"
  by (rule ext) (simp add: dur_of_def node_duration_built)

lemma find_bottleneck_first_longest:
  assumes "0 < path_duration self path"
  shows "\<exists>b. find_bottleneck self path = Some b \<and> first_longest (dur_of self) path b"
proof -
  have "\<exists>x \<in> set path. dur_of self x > 0"
  proof (rule ccontr)
    assume "\<not> (\<exists>x \<in> set path. dur_of self x > 0)"
    hence "\<forall>x \<in> set path. dur_of self x = 0" by auto
    hence "sum_list (map (dur_of self) path) = 0" by simp
    with assms show False by (simp add: path_duration_dur_of)
  qed
  hence "\<exists>x \<in> set path. dur_of self x > snd (None :: string option, 0 :: nat)" by simp
  from fold_bottleneck_changed[OF this]
  show ?thesis by (auto simp: find_bottleneck_def first_longest_def)
qed

text \<open>
  Claim C5, amended. Let \<open>find_critical_path\<close> return \<open>r\<close>. When the graph has a source and a
  sink, the bottleneck of \<open>r\<close> is absent if the path of \<open>r\<close> is empty, and otherwise it is
  the node of the path with the largest duration, the first one along the path among equals.
  When the graph has no source or no sink (the fallback branch, and the graph without nodes)
  the bottleneck is absent, whatever the path.
\<close>
theorem bottleneck_of_critical_path:
  assumes "find_critical_path (built schedule) = Inr r"
  shows "(sources (built_graph schedule) \<noteq> [] \<and> sinks (built_graph schedule) \<noteq> [] \<longrightarrow>
            (path_activities r = [] \<longrightarrow> bottleneck_activity r = None) \<and>
            (path_activities r \<noteq> [] \<longrightarrow>
               (\<exists>b. bottleneck_activity r = Some b \<and>
                    first_longest (node_duration (built_graph schedule)) (path_activities r) b)))
       \<and> (sources (built_graph schedule) = [] \<or> sinks (built_graph schedule) = [] \<longrightarrow>
            bottleneck_activity r = None)"
proof (intro conjI impI)
  assume "sources (built_graph schedule) = [] \<or> sinks (built_graph schedule) = []"
  thus "bottleneck_activity r = None"
    using assms by (auto simp: find_critical_path_def built_eq split: if_splits)
next
  let ?G = "built_graph schedule"
  let ?st = "fold (longer_path (built schedule)) (candidate_paths ?G) ([], 0)"
  assume ss: "sources ?G \<noteq> [] \<and> sinks ?G \<noteq> []"
  hence r: "r = \<lparr>path_activities = fst ?st, total_duration_days = snd ?st,
              bottleneck_activity = find_bottleneck (built schedule) (fst ?st),
              path_risk_level = assess_path_risk (built schedule) (fst ?st)\<rparr>"
    using find_critical_path_main[of schedule] assms by (simp add: Let_def)
  {
    assume "path_activities r = []"
    thus "bottleneck_activity r = None" using r by (simp add: find_bottleneck_Nil)
  next
    assume ne: "path_activities r \<noteq> []"
    have "?st = ([], 0) \<or> (fst ?st \<in> set (candidate_paths ?G)
        \<and> path_duration (built schedule) (fst ?st) = snd ?st \<and> 0 < snd ?st)"
      by (rule fold_longer_path_fst) simp_all
    with ne r have "0 < path_duration (built schedule) (fst ?st)" by auto
    from find_bottleneck_first_longest[OF this]
    show "\<exists>b. bottleneck_activity r = Some b \<and>
         first_longest (node_duration ?G) (path_activities r) b"
      using r by (simp add: dur_of_built)
  }
qed

theorem bottleneck_of_critical_path_witness:
  "find_critical_path (built linear_schedule) =
     Inr \<lparr>path_activities = [''A'', ''B'', ''C''], total_duration_days = 90,
          bottleneck_activity = Some ''B'', path_risk_level = LOW\<rparr>
   \<and> first_longest (node_duration (built_graph linear_schedule)) [''A'', ''B'', ''C''] ''B''"
proof -
  let ?r = "\<lparr>path_activities = [''A'', ''B'', ''C''], total_duration_days = 90,
          bottleneck_activity = Some ''B'', path_risk_level = LOW\<rparr>"
  have h: "find_critical_path (built linear_schedule) = Inr ?r" by code_simp
  have s1: "sources (built_graph linear_schedule) \<noteq> []" by code_simp
  have s2: "sinks (built_graph linear_schedule) \<noteq> []" by code_simp
  from bottleneck_of_critical_path[OF h] s1 s2
  have "\<exists>b. bottleneck_activity ?r = Some b \<and>
      first_longest (node_duration (built_graph linear_schedule)) (path_activities ?r) b"
    by simp
  thus ?thesis using h by simp
qed

theorem bottleneck_absent_on_fallback_counterexample:
  "\<exists>r. find_critical_path (built two_cycle_schedule) = Inr r
     \<and> path_activities r = [''A'', ''B''] \<and> bottleneck_activity r = None
     \<and> node_duration (built_graph two_cycle_schedule) ''B'' = 4"
proof -
  have "find_critical_path (built two_cycle_schedule) =
     Inr \<lparr>path_activities = [''A'', ''B''], total_duration_days = 7,
          bottleneck_activity = None, path_risk_level = MEDIUM\<rparr>" by code_simp
  moreover have "node_duration (built_graph two_cycle_schedule) ''B'' = 4" by code_simp
  ultimately show ?thesis by simp
qed



subsection \<open>find\_critical\_path always returns\<close>

lemma find_critical_path_returns: "\<exists>r. find_critical_path (built s) = Inr r"
proof (cases "sources (built_graph s) \<noteq> [] \<and> sinks (built_graph s) \<noteq> []")
  case True
  thus ?thesis using find_critical_path_main[of s] by (simp add: Let_def)
next
  case False
  thus ?thesis by (auto simp: find_critical_path_def built_eq)
qed

lemma find_critical_path_fallback_iff:
  assumes "sched_activities s \<noteq> []" and "find_critical_path (built s) = Inr r"
  shows "(sources (built_graph s) = [] \<or> sinks (built_graph s) = []) \<longleftrightarrow>
     r = \<lparr>path_activities = node_ids (built_graph s),
          total_duration_days = sum_of_durations (built_graph s) (node_ids (built_graph s)),
          bottleneck_activity = None, path_risk_level = MEDIUM\<rparr>"
proof
  assume "sources (built_graph s) = [] \<or> sinks (built_graph s) = []"
  from find_critical_path_fallback[OF assms(1) this] assms(2)
  show "r = \<lparr>path_activities = node_ids (built_graph s),
          total_duration_days = sum_of_durations (built_graph s) (node_ids (built_graph s)),
          bottleneck_activity = None, path_risk_level = MEDIUM\<rparr>" by simp
next
  let ?G = "built_graph s"
  let ?st = "fold (longer_path (built s)) (candidate_paths ?G) ([], 0)"
  assume r: "r = \<lparr>path_activities = node_ids ?G,
          total_duration_days = sum_of_durations ?G (node_ids ?G),
          bottleneck_activity = None, path_risk_level = MEDIUM\<rparr>"
  show "sources ?G = [] \<or> sinks ?G = []"
  proof (rule ccontr)
    assume "\<not> (sources ?G = [] \<or> sinks ?G = [])"
    hence ss: "sources ?G \<noteq> []" "sinks ?G \<noteq> []" by auto
    have eq: "fst ?st = node_ids ?G" "find_bottleneck (built s) (fst ?st) = None"
      using find_critical_path_main[OF ss] assms(2) r by (simp_all add: Let_def)
    have ne: "fst ?st \<noteq> []" using eq(1) assms(1) nodes_built_nonempty[of s]
      by (simp add: node_ids_def)
    have "?st = ([], 0) \<or> (fst ?st \<in> set (candidate_paths ?G)
        \<and> path_duration (built s) (fst ?st) = snd ?st \<and> 0 < snd ?st)"
      by (rule fold_longer_path_fst) simp_all
    with ne have "0 < path_duration (built s) (fst ?st)" by auto
    from find_bottleneck_first_longest[OF this] eq(2) show False by simp
  qed
qed

subsection \<open>The report of validate\_schedule\_integrity\<close>

lemma validate_built:
  assumes "sched_activities s \<noteq> []"
  shows "validate_schedule_integrity (built s) =
     cycle_issues (built_graph s) @ component_issues (built_graph s)
       @ zero_duration_issues (built s) @ isolated_issues (built_graph s)"
  using assms by (simp add: validate_schedule_integrity_def built_eq nodes_built_nonempty)

lemma cycle_issues_built:
  "cycle_issues (built_graph s) =
     (if acyclic (set (edges (built_graph s))) then []
      else [CycleDetected (length (simple_cycles (built_graph s)))])"
  by (simp add: cycle_issues_def is_directed_acyclic_graph_iff[OF wf_built_graph])

text \<open>
  Claim C9, amended. For a schedule with at least one activity whose graph has a cycle, the
  report of \<open>validate_schedule_integrity\<close> starts with the cycle finding, and
  \<open>find_critical_path\<close> returns a result (the model is a total function: the search for
  simple paths ends on every graph). The result is the fallback one, all nodes with the sum
  of their durations and the medium level, exactly when the graph has no source or no sink.
\<close>
theorem cyclic_schedule_reported_and_critical_path_returns:
  assumes "sched_activities schedule \<noteq> []"
    and "\<not> acyclic (set (edges (built_graph schedule)))"
  shows "(\<exists>n rest. validate_schedule_integrity (built schedule) = CycleDetected n # rest)
     \<and> (\<exists>r. find_critical_path (built schedule) = Inr r \<and>
          ((sources (built_graph schedule) = [] \<or> sinks (built_graph schedule) = []) \<longleftrightarrow>
           r = \<lparr>path_activities = node_ids (built_graph schedule),
                total_duration_days =
                  sum_of_durations (built_graph schedule) (node_ids (built_graph schedule)),
                bottleneck_activity = None, path_risk_level = MEDIUM\<rparr>))"
proof
  show "\<exists>n rest. validate_schedule_integrity (built schedule) = CycleDetected n # rest"
    using assms by (simp add: validate_built cycle_issues_built)
next
  obtain r where r: "find_critical_path (built schedule) = Inr r"
    using find_critical_path_returns by blast
  from find_critical_path_fallback_iff[OF assms(1) r] r
  show "\<exists>r. find_critical_path (built schedule) = Inr r \<and>
          ((sources (built_graph schedule) = [] \<or> sinks (built_graph schedule) = []) \<longleftrightarrow>
           r = \<lparr>path_activities = node_ids (built_graph schedule),
                total_duration_days =
                  sum_of_durations (built_graph schedule) (node_ids (built_graph schedule)),
                bottleneck_activity = None, path_risk_level = MEDIUM\<rparr>)"
    by blast
qed

theorem cyclic_schedule_reported_and_critical_path_returns_witness:
  "validate_schedule_integrity (built two_cycle_schedule) = [CycleDetected 1]
   \<and> find_critical_path (built two_cycle_schedule) =
       Inr \<lparr>path_activities = [''A'', ''B''], total_duration_days = 7,
            bottleneck_activity = None, path_risk_level = MEDIUM\<rparr>"
proof -
  have h1: "sched_activities two_cycle_schedule \<noteq> []"
    by (simp add: two_cycle_schedule_def schedule_of_def)
  have "\<not> is_directed_acyclic_graph (built_graph two_cycle_schedule)" by code_simp
  hence h2: "\<not> acyclic (set (edges (built_graph two_cycle_schedule)))"
    by (simp add: is_directed_acyclic_graph_iff[OF wf_built_graph])
  have e1: "validate_schedule_integrity (built two_cycle_schedule) = [CycleDetected 1]"
    by code_simp
  have e2: "find_critical_path (built two_cycle_schedule) =
       Inr \<lparr>path_activities = [''A'', ''B''], total_duration_days = 7,
            bottleneck_activity = None, path_risk_level = MEDIUM\<rparr>" by code_simp
  from cyclic_schedule_reported_and_critical_path_returns[OF h1 h2] e1 e2
  show ?thesis by simp
qed

theorem cyclic_schedule_without_fallback_counterexample:
  "\<not> acyclic (set (edges (built_graph cycle_beside_chain_schedule)))
   \<and> node_ids (built_graph cycle_beside_chain_schedule) = [''A'', ''D'', ''B'', ''C'']
   \<and> sources (built_graph cycle_beside_chain_schedule) = [''A'']
   \<and> sinks (built_graph cycle_beside_chain_schedule) = [''D'']
   \<and> find_critical_path (built cycle_beside_chain_schedule) =
       Inr \<lparr>path_activities = [''A'', ''D''], total_duration_days = 3,
            bottleneck_activity = Some ''D'', path_risk_level = LOW\<rparr>"
proof -
  have "\<not> is_directed_acyclic_graph (built_graph cycle_beside_chain_schedule)" by code_simp
  hence 1: "\<not> acyclic (set (edges (built_graph cycle_beside_chain_schedule)))"
    by (simp add: is_directed_acyclic_graph_iff[OF wf_built_graph])
  have 2: "node_ids (built_graph cycle_beside_chain_schedule) = [''A'', ''D'', ''B'', ''C'']"
    by code_simp
  have 3: "sources (built_graph cycle_beside_chain_schedule) = [''A'']" by code_simp
  have 4: "sinks (built_graph cycle_beside_chain_schedule) = [''D'']" by code_simp
  have 5: "find_critical_path (built cycle_beside_chain_schedule) =
       Inr \<lparr>path_activities = [''A'', ''D''], total_duration_days = 3,
            bottleneck_activity = Some ''D'', path_risk_level = LOW\<rparr>" by code_simp
  from 1 2 3 4 5 show ?thesis by blast
qed



subsection \<open>A schedule of a single activity\<close>

lemma single_built_graph:
  assumes "sched_activities s = [a]" "predecessors a = []"
  shows "built_graph s = \<lparr>nodes = [(act_id a, attrs_of a)], edges = []\<rparr>"
  using assms
  by (simp add: built_graph_eq index_activities_def add_nodes_def add_edges_def
      add_pred_edges_def add_node_def empty_graph_def)

lemma single_built:
  assumes "sched_activities s = [a]"
  shows "activities (built s) = [(act_id a, a)]"
  using assms by (simp add: built_eq index_activities_def)

lemma single_validate:
  assumes "sched_activities s = [a]" "predecessors a = []"
  shows "validate_schedule_integrity (built s) =
     (if duration_days a = 0 then [ZeroDuration 1] else []) @ [IsolatedActivity (act_id a)]"
proof -
  let ?G = "\<lparr>nodes = [(act_id a, attrs_of a)], edges = []\<rparr>"
  have G: "built_graph s = ?G" by (rule single_built_graph[OF assms])
  have u1: "unsorted_nodes ?G [] = []"
    by (subst unsorted_nodes.simps) simp
  have "unsorted_nodes ?G [act_id a] = []"
    by (subst unsorted_nodes.simps) (simp add: u1)
  hence c: "cycle_issues ?G = []"
    by (simp add: cycle_issues_def is_directed_acyclic_graph_def node_ids_def)
  have n: "next_level ?G [act_id a] [act_id a] = []"
    by (simp add: next_level_def neighbors_def successors_def predecessors_of_def)
  have b0: "plain_bfs ?G [act_id a] [] = [act_id a]"
    by (subst plain_bfs.simps) simp
  have "plain_bfs ?G [act_id a] [act_id a] = [act_id a]"
    by (subst plain_bfs.simps) (simp add: n b0)
  hence k: "component_issues ?G = []"
    by (simp add: component_issues_def connected_components_def node_ids_def)
  have z: "zero_duration_issues (built s) = (if duration_days a = 0 then [ZeroDuration 1] else [])"
    by (simp add: zero_duration_issues_def single_built[OF assms(1)])
  have i: "isolated_issues ?G = [IsolatedActivity (act_id a)]"
    by (simp add: isolated_issues_def node_ids_def in_degree_def out_degree_def)
  have "sched_activities s \<noteq> []" using assms(1) by simp
  from validate_built[OF this] show ?thesis by (simp add: G c k z i)
qed

lemma single_find_critical_path:
  assumes "sched_activities s = [a]" "predecessors a = []"
  shows "find_critical_path (built s) =
     Inr (if duration_days a = 0
          then \<lparr>path_activities = [], total_duration_days = 0,
                bottleneck_activity = None, path_risk_level = LOW\<rparr>
          else \<lparr>path_activities = [act_id a], total_duration_days = duration_days a,
                bottleneck_activity = Some (act_id a),
                path_risk_level = assess_path_risk (built s) [act_id a]\<rparr>)"
proof -
  let ?G = "\<lparr>nodes = [(act_id a, attrs_of a)], edges = []\<rparr>"
  have G: "built_graph s = ?G" by (rule single_built_graph[OF assms])
  have src: "sources ?G = [act_id a]" and snk: "sinks ?G = [act_id a]"
    by (simp_all add: sources_def sinks_def node_ids_def in_degree_def out_degree_def)
  have "simple_paths_from ?G [act_id a] [] (act_id a) = [[act_id a]]"
    by (subst simple_paths_from.simps) simp
  hence asp: "all_simple_paths ?G (act_id a) (act_id a) = Inr [[act_id a]]"
    by (simp add: all_simple_paths_def node_ids_def)
  have cand: "candidate_paths ?G = [[act_id a]]"
    by (simp add: candidate_paths_def src snk asp)
  have pd: "path_duration (built s) [act_id a] = duration_days a"
    by (simp add: path_duration_def List.map_filter_simps single_built[OF assms(1)])
  have fb: "find_bottleneck (built s) [act_id a] = (if duration_days a = 0 then None else Some (act_id a))"
    by (simp add: find_bottleneck_def bottleneck_step_def single_built[OF assms(1)])
  have ss: "sources (built_graph s) \<noteq> []" "sinks (built_graph s) \<noteq> []"
    by (simp_all add: G src snk)
  show ?thesis
    using find_critical_path_main[OF ss]
    by (simp add: G cand longer_path_def pd fb find_bottleneck_Nil assess_path_risk_def Let_def)
qed

text \<open>
  Claim C8, amended. For a schedule of a single activity without predecessors, the report
  of \<open>validate_schedule_integrity\<close> is the isolated-activity finding of that node, preceded
  by the zero-duration finding when the duration of the activity is zero; and
  \<open>find_critical_path\<close> returns a total duration equal to the duration of the activity, with
  the path made of exactly that node when the duration is positive.
\<close>
theorem single_activity_schedule:
  assumes "sched_activities schedule = [a]" and "predecessors a = []"
  shows "validate_schedule_integrity (built schedule) =
           (if duration_days a = 0 then [ZeroDuration 1] else []) @ [IsolatedActivity (act_id a)]
     \<and> (\<exists>r. find_critical_path (built schedule) = Inr r
            \<and> total_duration_days r = duration_days a
            \<and> (0 < duration_days a \<longrightarrow> path_activities r = [act_id a]))"
  using single_validate[OF assms] single_find_critical_path[OF assms] by simp

theorem single_activity_schedule_witness:
  "validate_schedule_integrity (built (single_schedule 100)) = [IsolatedActivity ''X'']
   \<and> (\<exists>r. find_critical_path (built (single_schedule 100)) = Inr r
          \<and> total_duration_days r = 100 \<and> path_activities r = [''X''])"
proof -
  have h1: "sched_activities (single_schedule 100) = [activity ''X'' ''Everything'' 100 []]"
    by (simp add: single_schedule_def schedule_of_def)
  have h2: "predecessors (activity ''X'' ''Everything'' 100 []) = []"
    by (simp add: activity_def)
  from single_activity_schedule[OF h1 h2] show ?thesis by (simp add: activity_def)
qed

theorem single_zero_duration_activity_counterexample:
  "sched_activities (single_schedule 0) = [activity ''X'' ''Everything'' 0 []]
   \<and> predecessors (activity ''X'' ''Everything'' 0 []) = []
   \<and> validate_schedule_integrity (built (single_schedule 0)) =
       [ZeroDuration 1, IsolatedActivity ''X'']
   \<and> find_critical_path (built (single_schedule 0)) =
       Inr \<lparr>path_activities = [], total_duration_days = 0,
            bottleneck_activity = None, path_risk_level = LOW\<rparr>"
proof -
  have 1: "sched_activities (single_schedule 0) = [activity ''X'' ''Everything'' 0 []]"
    by (simp add: single_schedule_def schedule_of_def)
  have 2: "predecessors (activity ''X'' ''Everything'' 0 []) = []" by (simp add: activity_def)
  have 3: "validate_schedule_integrity (built (single_schedule 0)) =
       [ZeroDuration 1, IsolatedActivity ''X'']" by code_simp
  have 4: "find_critical_path (built (single_schedule 0)) =
       Inr \<lparr>path_activities = [], total_duration_days = 0,
            bottleneck_activity = None, path_risk_level = LOW\<rparr>" by code_simp
  from 1 2 3 4 show ?thesis by blast
qed



subsection \<open>Sorting by descending score\<close>

lemma insort_key_map:
  "insort_key k (g x) (map g xs) = map g (insort_key (\<lambda>y. k (g y)) x xs)"
  by (induction xs) auto

lemma sort_key_map: "sort_key k (map g xs) = map g (sort_key (\<lambda>y. k (g y)) xs)"
  by (induction xs) (simp_all add: insort_key_map)

lemma ranked_eq:
  "map fst (py_sorted_reverse snd (map (\<lambda>n. (n, f n)) ids)) = rev (sort_key f (rev ids))"
proof -
  let ?g = "\<lambda>n. (n, f n)"
  have "sort_key snd (rev (map ?g ids)) = map ?g (sort_key f (rev ids))"
    by (simp add: rev_map sort_key_map)
  hence "py_sorted_reverse snd (map ?g ids) = map ?g (rev (sort_key f (rev ids)))"
    by (simp add: py_sorted_reverse_def rev_map)
  thus ?thesis by (simp add: comp_def)
qed

lemma length_py_sorted_reverse: "length (py_sorted_reverse k xs) = length xs"
  by (simp add: py_sorted_reverse_def)

lemma top_risks_eq:
  "top_risks (map (\<lambda>n. (n, f n)) ids) = take (max 1 (length ids div 5)) (rev (sort_key f (rev ids)))"
proof -
  let ?S = "py_sorted_reverse snd (map (\<lambda>n. (n, f n)) ids)"
  have "top_risks (map (\<lambda>n. (n, f n)) ids) = map fst (take (max 1 (length ?S div 5)) ?S)"
    by (simp add: top_risks_def Let_def)
  also have "\<dots> = take (max 1 (length ids div 5)) (map fst ?S)"
    by (simp add: take_map length_py_sorted_reverse)
  finally show ?thesis by (simp only: ranked_eq)
qed

lemma ranked_mset: "mset (rev (sort_key f (rev ids))) = mset ids"
  by simp

lemma ranked_descending:
  "sorted_wrt (\<lambda>x y. f x \<ge> f y) (rev (sort_key f (rev ids)))"
proof -
  have "sorted (map f (sort_key f (rev ids)))" by (rule sorted_sort_key)
  hence "sorted_wrt (\<lambda>x y. f x \<le> f y) (sort_key f (rev ids))"
    by (simp add: sorted_map)
  thus ?thesis by (simp add: sorted_wrt_rev)
qed

lemma ranked_stable:
  "filter (\<lambda>x. f x = k) (rev (sort_key f (rev ids))) = filter (\<lambda>x. f x = k) ids"
  by (simp add: rev_filter[symmetric] sort_key_stable)

subsection \<open>The scoring loop\<close>

lemma score_nodes_returns:
  assumes "\<forall>v \<in> set vs. \<forall>a. map_of (activities self) v = Some a \<longrightarrow> \<not> division_overflows (duration_days a)"
  shows "score_nodes score self vs = Inr (map (\<lambda>n. (n, score self n)) vs)"
  using assms by (induction vs) (auto split: option.splits)

lemma score_nodes_raises:
  assumes "\<exists>v \<in> set vs. \<exists>a. map_of (activities self) v = Some a \<and> division_overflows (duration_days a)"
  shows "score_nodes score self vs = Inl OverflowError"
  using assms
proof (induction vs)
  case Nil
  thus ?case by simp
next
  case (Cons v vs)
  show ?case
  proof (cases "\<exists>a. map_of (activities self) v = Some a \<and> division_overflows (duration_days a)")
    case True
    thus ?thesis by auto
  next
    case False
    hence "score_nodes score self vs = Inl OverflowError" using Cons by auto
    thus ?thesis by (auto split: option.splits)
  qed
qed

lemma find_high_risk_activities_built:
  assumes "sched_activities s \<noteq> []"
    and "\<forall>a \<in> set (sched_activities s). \<not> division_overflows (duration_days a)"
  shows "find_high_risk_activities score (built s) =
     Inr (top_risks (map (\<lambda>n. (n, score (built s) n)) (node_ids (built_graph s))))"
proof -
  have g: "graph (built s) = Some (built_graph s)" by (simp add: built_eq)
  have ne: "nodes (built_graph s) \<noteq> []" using assms(1) by (simp add: nodes_built_nonempty)
  have "\<forall>v \<in> set (node_ids (built_graph s)). \<forall>a. map_of (activities (built s)) v = Some a
       \<longrightarrow> \<not> division_overflows (duration_days a)"
    using assms(2) index_activities_entries[of "sched_activities s"] by (auto simp: built_eq)
  hence "score_nodes score (built s) (node_ids (built_graph s))
       = Inr (map (\<lambda>n. (n, score (built s) n)) (node_ids (built_graph s)))"
    by (rule score_nodes_returns)
  thus ?thesis using ne by (simp add: find_high_risk_activities_def g)
qed

lemma find_high_risk_activities_overflow:
  assumes "a \<in> set (sched_activities s)" and "distinct (map act_id (sched_activities s))"
    and "division_overflows (duration_days a)"
  shows "find_high_risk_activities score (built s) = Inl OverflowError"
proof -
  have g: "graph (built s) = Some (built_graph s)" by (simp add: built_eq)
  have "sched_activities s \<noteq> []" using assms(1) by auto
  hence ne: "nodes (built_graph s) \<noteq> []" by (simp add: nodes_built_nonempty)
  have idx: "map_of (activities (built s)) (act_id a) = Some a"
    using assms(1,2) by (simp add: built_eq index_activities_distinct map_of_eq_Some_iff comp_def)
  have "act_id a \<in> set (node_ids (built_graph s))"
    using assms(1) by (simp add: set_node_ids_built_graph)
  hence "score_nodes score (built s) (node_ids (built_graph s)) = Inl OverflowError"
    using idx assms(3) by (intro score_nodes_raises) blast
  thus ?thesis using ne by (simp add: find_high_risk_activities_def g)
qed

lemma small_duration_no_overflow: "d < 2 ^ 64 \<Longrightarrow> \<not> division_overflows d"
proof -
  have "(2::nat) ^ 64 \<le> 30 * (2 ^ 1024 - 2 ^ 970)" by simp
  thus "d < 2 ^ 64 \<Longrightarrow> \<not> division_overflows d" by (simp add: division_overflows_def)
qed

text \<open>
  Claim C3, amended. For a graph with \<open>n \<ge> 1\<close> nodes in which no duration is so large that
  its division by 30 overflows a float, and for any scores, \<open>find_high_risk_activities\<close>
  returns the first \<open>max 1 (n div 5)\<close> identifiers of the list \<open>ranked\<close>, where \<open>ranked\<close> is the
  list of the nodes rearranged by descending score, nodes of equal score staying in their
  insertion order; so it returns \<open>max 1 (n div 5)\<close> identifiers, at least one.
\<close>
theorem find_high_risk_activities_top_fifth:
  assumes "sched_activities schedule \<noteq> []"
    and "\<forall>a \<in> set (sched_activities schedule). \<not> division_overflows (duration_days a)"
  shows "\<exists>ranked.
      mset ranked = mset (node_ids (built_graph schedule))
    \<and> sorted_wrt (\<lambda>x y. score (built schedule) x \<ge> score (built schedule) y) ranked
    \<and> (\<forall>k. filter (\<lambda>x. score (built schedule) x = k) ranked
             = filter (\<lambda>x. score (built schedule) x = k) (node_ids (built_graph schedule)))
    \<and> find_high_risk_activities score (built schedule)
        = Inr (take (max 1 (length (node_ids (built_graph schedule)) div 5)) ranked)
    \<and> length (take (max 1 (length (node_ids (built_graph schedule)) div 5)) ranked)
        = max 1 (length (node_ids (built_graph schedule)) div 5)"
proof -
  let ?ids = "node_ids (built_graph schedule)"
  let ?f = "score (built schedule)"
  let ?ranked = "rev (sort_key ?f (rev ?ids))"
  have ne: "nodes (built_graph schedule) \<noteq> []"
    using assms(1) by (simp add: nodes_built_nonempty)
  have res: "find_high_risk_activities score (built schedule)
      = Inr (take (max 1 (length ?ids div 5)) ?ranked)"
    using find_high_risk_activities_built[OF assms] by (simp only: top_risks_eq)
  have "1 \<le> length ?ids" using ne by (cases "nodes (built_graph schedule)") (simp_all add: node_ids_def)
  hence len: "length (take (max 1 (length ?ids div 5)) ?ranked) = max 1 (length ?ids div 5)"
    by simp
  show ?thesis
    using ranked_mset[of ?f ?ids] ranked_descending[of ?f ?ids] ranked_stable[of ?f _ ?ids] res len
    by (intro exI[of _ ?ranked]) simp
qed

theorem find_high_risk_activities_top_fifth_witness:
  "length (node_ids (built_graph ten_schedule)) = 10
   \<and> find_high_risk_activities dur_of (built ten_schedule) = Inr [''T2'', ''T4'']
   \<and> (\<exists>ranked. mset ranked = mset (node_ids (built_graph ten_schedule))
         \<and> take 2 ranked = [''T2'', ''T4''])"
proof -
  have h1: "sched_activities ten_schedule \<noteq> []"
    by (simp add: ten_schedule_def schedule_of_def)
  have h2: "\<forall>a \<in> set (sched_activities ten_schedule). \<not> division_overflows (duration_days a)"
    by (simp add: ten_schedule_def schedule_of_def activity_def small_duration_no_overflow)
  have n: "length (node_ids (built_graph ten_schedule)) = 10" by code_simp
  have "top_risks (map (\<lambda>n. (n, dur_of (built ten_schedule) n)) (node_ids (built_graph ten_schedule)))
      = [''T2'', ''T4'']" by code_simp
  hence e: "find_high_risk_activities dur_of (built ten_schedule) = Inr [''T2'', ''T4'']"
    using find_high_risk_activities_built[OF h1 h2, of dur_of] by simp
  from find_high_risk_activities_top_fifth[OF h1 h2, of dur_of]
  obtain ranked where r: "mset ranked = mset (node_ids (built_graph ten_schedule))"
    "find_high_risk_activities dur_of (built ten_schedule)
       = Inr (take (max 1 (length (node_ids (built_graph ten_schedule)) div 5)) ranked)"
    by blast
  have k: "max 1 (length (node_ids (built_graph ten_schedule)) div 5) = 2" by (simp add: n)
  from r(2) e have "take 2 ranked = [''T2'', ''T4'']" by (simp only: k sum.inject)
  with r(1) n e show ?thesis by blast
qed

theorem find_high_risk_activities_floor_and_overflow_counterexample:
  "length (node_ids (built_graph six_schedule)) = 6
   \<and> find_high_risk_activities dur_of (built six_schedule) = Inr [''A6'']
   \<and> take ((6 + 4) div 5)
        (map fst (py_sorted_reverse snd
           (map (\<lambda>n. (n, dur_of (built six_schedule) n)) (node_ids (built_graph six_schedule)))))
      = [''A6'', ''A5'']
   \<and> length (node_ids (built_graph endless_schedule)) = 1
   \<and> find_high_risk_activities dur_of (built endless_schedule) = Inl OverflowError"
proof -
  have h1: "sched_activities six_schedule \<noteq> []"
    by (simp add: six_schedule_def schedule_of_def)
  have h2: "\<forall>a \<in> set (sched_activities six_schedule). \<not> division_overflows (duration_days a)"
    by (simp add: six_schedule_def schedule_of_def activity_def small_duration_no_overflow)
  have 1: "length (node_ids (built_graph six_schedule)) = 6" by code_simp
  have "top_risks (map (\<lambda>n. (n, dur_of (built six_schedule) n)) (node_ids (built_graph six_schedule)))
      = [''A6'']" by code_simp
  hence 2: "find_high_risk_activities dur_of (built six_schedule) = Inr [''A6'']"
    using find_high_risk_activities_built[OF h1 h2, of dur_of] by simp
  have 3: "take ((6 + 4) div 5)
        (map fst (py_sorted_reverse snd
           (map (\<lambda>n. (n, dur_of (built six_schedule) n)) (node_ids (built_graph six_schedule)))))
      = [''A6'', ''A5'']" by code_simp
  have 4: "length (node_ids (built_graph endless_schedule)) = 1"
    by (simp add: node_ids_built_graph endless_schedule_def schedule_of_def index_activities_def)
  have "division_overflows (10 ^ 400)" by (simp add: division_overflows_def)
  hence 5: "find_high_risk_activities dur_of (built endless_schedule) = Inl OverflowError"
    by (intro find_high_risk_activities_overflow[of "activity ''X'' ''Everything'' (10 ^ 400) []"])
       (simp_all add: endless_schedule_def schedule_of_def activity_def)
  from 1 2 3 4 5 show ?thesis by blast
qed



subsection \<open>connected\_components counts the connected components\<close>

lemma in_neighbors:
  "w \<in> set (neighbors G v) \<longleftrightarrow> (v, w) \<in> set (edges G) \<union> (set (edges G))\<inverse>"
  by (force simp: neighbors_def successors_def predecessors_of_def)

lemma set_next_level:
  "set (next_level G seen level) =
     {w. w \<notin> set seen \<and> (\<exists>v \<in> set level. (v, w) \<in> set (edges G) \<union> (set (edges G))\<inverse>)}"
  unfolding next_level_def using in_neighbors[of _ G] by auto

lemma closed_reach:
  assumes "\<forall>x \<in> S. \<forall>w. (x, w) \<in> N \<longrightarrow> w \<in> S" "s \<in> S"
  shows "N\<^sup>* `` {s} \<subseteq> S"
proof
  fix x assume "x \<in> N\<^sup>* `` {s}"
  hence "(s, x) \<in> N\<^sup>*" by simp
  thus "x \<in> S"
  proof (induction rule: rtrancl_induct)
    case base
    show ?case by (rule assms(2))
  next
    case (step y z)
    thus ?case using assms(1) by blast
  qed
qed

lemma set_next_level_abs:
  assumes "N = set (edges G) \<union> (set (edges G))\<inverse>"
  shows "set (next_level G seen level) = {w. w \<notin> set seen \<and> (\<exists>v \<in> set level. (v, w) \<in> N)}"
  unfolding assms by (rule set_next_level)

lemma plain_bfs_reach:
  "set level \<subseteq> set seen \<Longrightarrow>
   (\<forall>x \<in> set seen - set level. \<forall>w. (x, w) \<in> set (edges G) \<union> (set (edges G))\<inverse> \<longrightarrow> w \<in> set seen) \<Longrightarrow>
   (\<forall>x \<in> set seen. (s, x) \<in> connected_rel G) \<Longrightarrow> s \<in> set seen \<Longrightarrow>
   set (plain_bfs G seen level) = connected_rel G `` {s}"
proof (induction G seen level rule: plain_bfs.induct)
  case (1 G seen level)
  define N where "N = set (edges G) \<union> (set (edges G))\<inverse>"
  have R: "connected_rel G = N\<^sup>*" by (simp only: connected_rel_def N_def)
  have p1: "set level \<subseteq> set seen" by (rule "1.prems"(1))
  have p2: "\<forall>x \<in> set seen - set level. \<forall>w. (x, w) \<in> N \<longrightarrow> w \<in> set seen"
    unfolding N_def by (rule "1.prems"(2))
  have p3: "\<forall>x \<in> set seen. (s, x) \<in> N\<^sup>*" using "1.prems"(3) by (simp only: R)
  have p4: "s \<in> set seen" by (rule "1.prems"(4))
  show ?case
  proof (cases "level = []")
    case True
    hence unf: "plain_bfs G seen level = seen" by (subst plain_bfs.simps) simp
    have "\<forall>x \<in> set seen. \<forall>w. (x, w) \<in> N \<longrightarrow> w \<in> set seen"
      using p2 unfolding True by simp
    hence "N\<^sup>* `` {s} \<subseteq> set seen" using p4 by (rule closed_reach)
    moreover have "set seen \<subseteq> N\<^sup>* `` {s}" using p3 by blast
    ultimately have "set seen = N\<^sup>* `` {s}" by blast
    thus ?thesis by (simp only: unf R)
  next
    case False
    define nxt where "nxt = next_level G seen level"
    have nx: "set nxt = {w. w \<notin> set seen \<and> (\<exists>v \<in> set level. (v, w) \<in> N)}"
      unfolding nxt_def by (rule set_next_level_abs[OF N_def])
    have unf: "plain_bfs G seen level = plain_bfs G (seen @ nxt) nxt"
      unfolding nxt_def using False by (subst plain_bfs.simps) simp
    have "set (plain_bfs G (seen @ nxt) nxt) = connected_rel G `` {s}"
      unfolding nxt_def
    proof (rule "1.IH"[OF False])
      show "set (next_level G seen level) \<subseteq> set (seen @ next_level G seen level)" by simp
      have "\<forall>x \<in> set (seen @ nxt) - set nxt. \<forall>w. (x, w) \<in> N \<longrightarrow> w \<in> set (seen @ nxt)"
      proof (intro ballI allI impI)
        fix x w assume x: "x \<in> set (seen @ nxt) - set nxt" and w: "(x, w) \<in> N"
        from x have xs: "x \<in> set seen" by auto
        show "w \<in> set (seen @ nxt)"
        proof (cases "x \<in> set level")
          case True
          hence "w \<in> set seen \<or> w \<in> set nxt" using w nx by blast
          thus ?thesis by simp
        next
          case False
          hence "w \<in> set seen" using p2 xs w by blast
          thus ?thesis by simp
        qed
      qed
      thus "\<forall>x \<in> set (seen @ next_level G seen level) - set (next_level G seen level).
          \<forall>w. (x, w) \<in> set (edges G) \<union> (set (edges G))\<inverse> \<longrightarrow> w \<in> set (seen @ next_level G seen level)"
        unfolding nxt_def N_def .
      have "\<forall>x \<in> set (seen @ nxt). (s, x) \<in> N\<^sup>*"
      proof
        fix x assume "x \<in> set (seen @ nxt)"
        hence "x \<in> set seen \<or> x \<in> set nxt" by simp
        thus "(s, x) \<in> N\<^sup>*"
        proof
          assume "x \<in> set seen"
          thus ?thesis using p3 by blast
        next
          assume "x \<in> set nxt"
          then obtain v where v: "v \<in> set level" "(v, x) \<in> N" using nx by blast
          hence "(s, v) \<in> N\<^sup>*" using p1 p3 by blast
          thus ?thesis using v(2) by (rule rtrancl_into_rtrancl)
        qed
      qed
      thus "\<forall>x \<in> set (seen @ next_level G seen level). (s, x) \<in> connected_rel G"
        unfolding nxt_def R .
      show "s \<in> set (seen @ next_level G seen level)" using p4 by simp
    qed
    thus ?thesis by (simp only: unf)
  qed
qed

lemma plain_bfs_component: "set (plain_bfs G [v] [v]) = connected_rel G `` {v}"
  by (rule plain_bfs_reach) (simp_all add: connected_rel_def)

lemma refl_connected_rel: "(x, x) \<in> connected_rel G"
  by (simp add: connected_rel_def)

lemma sym_connected_rel: "sym (connected_rel G)"
  unfolding connected_rel_def by (intro sym_rtrancl) (auto simp: sym_def)

lemma trans_connected_rel: "trans (connected_rel G)"
  unfolding connected_rel_def by (rule trans_rtrancl)

lemma class_eq_iff:
  "connected_rel G `` {x} = connected_rel G `` {v} \<longleftrightarrow> (v, x) \<in> connected_rel G"
proof
  assume "connected_rel G `` {x} = connected_rel G `` {v}"
  moreover have "x \<in> connected_rel G `` {x}" using refl_connected_rel by auto
  ultimately show "(v, x) \<in> connected_rel G" by auto
next
  assume vx: "(v, x) \<in> connected_rel G"
  hence xv: "(x, v) \<in> connected_rel G" using sym_connected_rel by (auto dest: symD)
  show "connected_rel G `` {x} = connected_rel G `` {v}"
    using vx xv trans_connected_rel[of G] by (auto dest: transD)
qed

lemma components_from_count:
  "length (components_from G seen vs) = card ((set vs - set seen) // connected_rel G)"
proof (induction vs arbitrary: seen)
  case Nil
  show ?case by (simp add: quotient_def)
next
  case (Cons v vs)
  let ?R = "connected_rel G"
  show ?case
  proof (cases "v \<in> set seen")
    case True
    hence "set (v # vs) - set seen = set vs - set seen" by auto
    thus ?thesis using True Cons.IH[of seen] by simp
  next
    case False
    let ?c = "plain_bfs G [v] [v]"
    have c: "set ?c = ?R `` {v}" by (rule plain_bfs_component)
    let ?A = "set vs - set (seen @ ?c)"
    have split: "(set (v # vs) - set seen) // ?R = insert (?R `` {v}) (?A // ?R)"
    proof (intro set_eqI iffI)
      fix X assume "X \<in> (set (v # vs) - set seen) // ?R"
      then obtain x where x: "x \<in> set (v # vs) - set seen" "X = ?R `` {x}"
        by (auto simp: quotient_def)
      show "X \<in> insert (?R `` {v}) (?A // ?R)"
      proof (cases "(v, x) \<in> ?R")
        case True
        thus ?thesis using x(2) class_eq_iff[of G x v] by simp
      next
        case False
        hence "x \<noteq> v" using refl_connected_rel by auto
        hence "x \<in> ?A" using x(1) False c by auto
        thus ?thesis using x(2) by (auto simp: quotient_def)
      qed
    next
      fix X assume "X \<in> insert (?R `` {v}) (?A // ?R)"
      thus "X \<in> (set (v # vs) - set seen) // ?R"
        using False by (auto simp: quotient_def)
    qed
    have notin: "?R `` {v} \<notin> ?A // ?R"
    proof
      assume "?R `` {v} \<in> ?A // ?R"
      then obtain x where x: "x \<in> ?A" "?R `` {v} = ?R `` {x}" by (auto simp: quotient_def)
      hence "(v, x) \<in> ?R" using class_eq_iff[of G x v] by simp
      with x(1) c show False by auto
    qed
    have fin: "finite (?A // ?R)" by (simp add: quotient_def)
    have "length (components_from G seen (v # vs)) = Suc (length (components_from G (seen @ ?c) vs))"
      using False by (simp add: Let_def)
    also have "\<dots> = Suc (card (?A // ?R))" using Cons.IH[of "seen @ ?c"] by simp
    also have "\<dots> = card ((set (v # vs) - set seen) // ?R)"
      using split notin fin by simp
    finally show ?thesis .
  qed
qed

lemma connected_components_count: "length (connected_components G) = component_count G"
  by (simp add: connected_components_def component_count_def components_from_count)

lemma component_issues_eq:
  "component_issues G =
     (if 1 < component_count G then [DisconnectedGroups (component_count G)] else [])"
  by (simp add: component_issues_def connected_components_count Let_def)


subsection \<open>The zero-duration and isolation checks\<close>

lemma distinct_index_activities: "distinct (map fst (index_activities acts))"
  unfolding index_activities_def by (rule fold_update_distinct) simp

lemma zero_duration_issues_built:
  "zero_duration_issues (built s) =
     (if 0 < zero_duration_count (built_graph s)
      then [ZeroDuration (zero_duration_count (built_graph s))] else [])"
proof -
  let ?idx = "index_activities (sched_activities s)"
  have "node_duration (built_graph s) (fst kv) = duration_days (snd kv)" if "kv \<in> set ?idx" for kv
  proof -
    have "map_of ?idx (fst kv) = Some (snd kv)"
      using that by (simp add: map_of_eq_Some_iff[OF distinct_index_activities])
    thus ?thesis by (simp add: node_duration_built built_eq)
  qed
  hence "filter (\<lambda>kv. node_duration (built_graph s) (fst kv) = 0) ?idx
       = filter (\<lambda>kv. duration_days (snd kv) = 0) ?idx"
    by (intro filter_cong) simp_all
  hence "zero_duration_count (built_graph s) = length (filter (\<lambda>kv. duration_days (snd kv) = 0) ?idx)"
    by (simp add: zero_duration_count_def node_ids_built_graph filter_map comp_def)
  thus ?thesis by (simp add: zero_duration_issues_def built_eq Let_def)
qed

lemma isolated_issues_eq:
  "isolated_issues G =
     map IsolatedActivity
       (filter (\<lambda>v. \<forall>u. (u, v) \<notin> set (edges G) \<and> (v, u) \<notin> set (edges G)) (node_ids G))"
proof -
  have "(in_degree G v = 0 \<and> out_degree G v = 0)
      \<longleftrightarrow> (\<forall>u. (u, v) \<notin> set (edges G) \<and> (v, u) \<notin> set (edges G))" for v
    by (auto simp: in_degree_zero out_degree_zero)
  thus ?thesis by (simp add: isolated_issues_def)
qed

text \<open>
  Claim C6. For an engine built from a schedule with at least one activity, the report of
  \<open>validate_schedule_integrity\<close> is, in this order: the cycle finding with the number of
  elementary cycles if the graph is not acyclic; the disconnection finding with the number
  of components if the nodes, with the edges taken in both directions, fall into more than
  one connected component; the zero-duration finding with their number if some activity has
  duration zero; and one isolated-activity finding for each node without incoming and
  outgoing edges, in the order of the nodes. A graph with none of these defects gives the
  empty report. The function is total: nothing in it can raise.
\<close>
theorem validate_schedule_integrity_report:
  assumes "sched_activities schedule \<noteq> []"
  shows "validate_schedule_integrity (built schedule) =
      (if acyclic (set (edges (built_graph schedule))) then []
       else [CycleDetected (length (simple_cycles (built_graph schedule)))])
    @ (if 1 < component_count (built_graph schedule)
       then [DisconnectedGroups (component_count (built_graph schedule))] else [])
    @ (if 0 < zero_duration_count (built_graph schedule)
       then [ZeroDuration (zero_duration_count (built_graph schedule))] else [])
    @ map IsolatedActivity
        (filter (\<lambda>v. \<forall>u. (u, v) \<notin> set (edges (built_graph schedule))
                        \<and> (v, u) \<notin> set (edges (built_graph schedule)))
           (node_ids (built_graph schedule)))"
  unfolding validate_built[OF assms] cycle_issues_built component_issues_eq
    zero_duration_issues_built isolated_issues_eq ..

theorem validate_schedule_integrity_report_witness:
  "validate_schedule_integrity (built defective_schedule) =
     [CycleDetected 1, DisconnectedGroups 2, ZeroDuration 2, IsolatedActivity ''E'']
   \<and> \<not> acyclic (set (edges (built_graph defective_schedule)))
   \<and> component_count (built_graph defective_schedule) = 2
   \<and> zero_duration_count (built_graph defective_schedule) = 2
   \<and> filter (\<lambda>v. \<forall>u. (u, v) \<notin> set (edges (built_graph defective_schedule))
                    \<and> (v, u) \<notin> set (edges (built_graph defective_schedule)))
        (node_ids (built_graph defective_schedule)) = [''E'']"
proof -
  let ?G = "built_graph defective_schedule"
  let ?F = "filter (\<lambda>v. \<forall>u. (u, v) \<notin> set (edges ?G) \<and> (v, u) \<notin> set (edges ?G)) (node_ids ?G)"
  have h: "sched_activities defective_schedule \<noteq> []"
    by (simp add: defective_schedule_def schedule_of_def)
  have e: "validate_schedule_integrity (built defective_schedule) =
     [CycleDetected 1, DisconnectedGroups 2, ZeroDuration 2, IsolatedActivity ''E'']"
    by code_simp
  have "\<not> is_directed_acyclic_graph ?G" by code_simp
  hence a: "\<not> acyclic (set (edges ?G))"
    by (simp add: is_directed_acyclic_graph_iff[OF wf_built_graph])
  have z: "zero_duration_count ?G = 2" by code_simp
  from validate_schedule_integrity_report[OF h] e a z
  have "(if 1 < component_count ?G then [DisconnectedGroups (component_count ?G)] else [])
          @ ZeroDuration 2 # map IsolatedActivity ?F
        = [DisconnectedGroups 2, ZeroDuration 2, IsolatedActivity ''E'']"
    by simp
  hence "component_count ?G = 2 \<and> map IsolatedActivity ?F = [IsolatedActivity ''E'']"
    by (simp split: if_splits)
  hence "component_count ?G = 2" and "?F = [''E'']"
    by (auto simp: map_eq_Cons_conv)
  with e a z show ?thesis by simp
qed


subsection \<open>The number of paths find\_critical\_path examines\<close>

lemma inj_node_name: "inj node_name"
proof (rule injI)
  fix i j assume "node_name i = node_name j"
  hence "length (node_name i) = length (node_name j)" by simp
  thus "i = j" by (simp add: node_name_def)
qed

lemma node_name_eq [simp]: "node_name i = node_name j \<longleftrightarrow> i = j"
  using inj_node_name by (auto dest: injD)

lemma dense_ids: "map act_id (sched_activities (dense_schedule k)) = map node_name [0..<k + 2]"
  by (simp add: dense_schedule_def schedule_of_def activity_def comp_def)

lemma dense_node_ids: "node_ids (built_graph (dense_schedule k)) = map node_name [0..<k + 2]"
proof -
  have "distinct (map act_id (sched_activities (dense_schedule k)))"
    unfolding dense_ids by (simp add: distinct_map inj_on_def del: upt_Suc)
  hence "map fst (index_activities (sched_activities (dense_schedule k)))
       = map act_id (sched_activities (dense_schedule k))"
    by (simp add: index_activities_distinct comp_def)
  thus ?thesis by (simp add: node_ids_built_graph dense_ids)
qed

lemma dense_node_set: "set (node_ids (built_graph (dense_schedule k))) = node_name ` {0..<k + 2}"
  by (simp add: dense_node_ids del: upt_Suc)

lemma edge_built_iff:
  "(p, c) \<in> set (edges (built_graph s)) \<longleftrightarrow>
     (\<exists>a \<in> set (sched_activities s). c = act_id a \<and> p \<in> set (predecessors a)
        \<and> p \<in> act_id ` set (sched_activities s))"
  by (auto simp: edges_built_graph)

lemma dense_edges:
  "(p, c) \<in> set (edges (built_graph (dense_schedule k))) \<longleftrightarrow>
     (\<exists>i j. i < j \<and> j < k + 2 \<and> p = node_name i \<and> c = node_name j)"
proof -
  define f where "f = (\<lambda>j. activity (node_name j) (node_name j) 1 (map node_name [0..<j]))"
  have sa: "set (sched_activities (dense_schedule k)) = f ` {0..<k + 2}"
    by (simp add: dense_schedule_def schedule_of_def f_def del: upt_Suc)
  have idf: "act_id (f j) = node_name j" for j by (simp add: f_def activity_def)
  have pf: "set (predecessors (f j)) = node_name ` {0..<j}" for j
    by (simp add: f_def activity_def del: upt_Suc)
  have ids: "act_id ` set (sched_activities (dense_schedule k)) = node_name ` {0..<k + 2}"
    unfolding sa by (simp add: image_image idf)
  show ?thesis
  proof
    assume "(p, c) \<in> set (edges (built_graph (dense_schedule k)))"
    then obtain a where a: "a \<in> f ` {0..<k + 2}" "c = act_id a" "p \<in> set (predecessors a)"
      unfolding edge_built_iff sa by (elim bexE conjE)
    from a(1) obtain j where j: "j \<in> {0..<k + 2}" "a = f j" by (rule imageE)
    from a(3) have "p \<in> node_name ` {0..<j}" unfolding j(2) pf .
    then obtain i where i: "i \<in> {0..<j}" "p = node_name i" by (elim imageE)
    have "i < j" "j < k + 2" using i(1) j(1) by simp_all
    moreover have "c = node_name j" using a(2) j(2) idf by simp
    ultimately show "\<exists>i j. i < j \<and> j < k + 2 \<and> p = node_name i \<and> c = node_name j"
      using i(2) by blast
  next
    assume "\<exists>i j. i < j \<and> j < k + 2 \<and> p = node_name i \<and> c = node_name j"
    then obtain i j where ij: "i < j" "j < k + 2" "p = node_name i" "c = node_name j" by blast
    have 1: "f j \<in> set (sched_activities (dense_schedule k))" unfolding sa using ij(2) by simp
    have 2: "p \<in> set (predecessors (f j))" unfolding pf using ij(1,3) by simp
    have 3: "p \<in> act_id ` set (sched_activities (dense_schedule k))"
      unfolding ids using ij(1,2,3) by simp
    have 4: "c = act_id (f j)" using ij(4) idf by simp
    show "(p, c) \<in> set (edges (built_graph (dense_schedule k)))"
      unfolding edge_built_iff using 1 2 3 4 by (intro bexI[of _ "f j"] conjI)
  qed
qed

lemma dense_source: "node_name 0 \<in> set (sources (built_graph (dense_schedule k)))"
proof -
  have "node_name 0 \<in> set (node_ids (built_graph (dense_schedule k)))"
    unfolding dense_node_set by (rule imageI) simp
  moreover have "in_degree (built_graph (dense_schedule k)) (node_name 0) = 0"
    by (simp add: in_degree_zero dense_edges)
  ultimately show ?thesis by (simp add: sources_def)
qed

lemma dense_sink: "node_name (Suc k) \<in> set (sinks (built_graph (dense_schedule k)))"
proof -
  have "node_name (Suc k) \<in> set (node_ids (built_graph (dense_schedule k)))"
    unfolding dense_node_set by (rule imageI) simp
  moreover have "out_degree (built_graph (dense_schedule k)) (node_name (Suc k)) = 0"
    by (auto simp: out_degree_zero dense_edges)
  ultimately show ?thesis by (simp add: sinks_def)
qed


lemma path_through_simple:
  assumes "S \<subseteq> {1..k}"
  shows "is_simple_path (built_graph (dense_schedule k)) (node_name 0) (node_name (Suc k))
           (path_through k S)"
proof -
  let ?L = "0 # sorted_list_of_set S @ [Suc k]"
  have fin: "finite S" using assms by (rule finite_subset) simp
  have mem: "\<And>x. x \<in> set (sorted_list_of_set S) \<Longrightarrow> 1 \<le> x \<and> x \<le> k"
    using assms fin by auto
  have strict: "sorted_wrt (<) ?L"
    using mem fin by (fastforce simp: sorted_wrt_append)
  have bound: "\<And>x. x \<in> set ?L \<Longrightarrow> x < k + 2" using mem by fastforce
  have dist: "distinct ?L" using strict by (simp only: strict_sorted_iff)
  have succ: "successively (<) ?L" using strict by (rule successively_if_sorted_wrt)
  have "successively (\<lambda>x y. (node_name x, node_name y) \<in> set (edges (built_graph (dense_schedule k)))) ?L"
    using succ
  proof (rule successively_mono)
    fix x y assume "x \<in> set ?L" "y \<in> set ?L" "x < y"
    thus "(node_name x, node_name y) \<in> set (edges (built_graph (dense_schedule k)))"
      using bound[of y] by (auto simp: dense_edges)
  qed
  hence e: "successively (\<lambda>u v. (u, v) \<in> set (edges (built_graph (dense_schedule k))))
       (map node_name ?L)"
    by (simp only: successively_map)
  have d: "distinct (map node_name ?L)"
    using dist by (simp only: distinct_map) (simp add: inj_on_def)
  have sub: "set (map node_name ?L) \<subseteq> set (node_ids (built_graph (dense_schedule k)))"
    using bound unfolding dense_node_set by auto
  have hl: "hd (map node_name ?L) = node_name 0" "last (map node_name ?L) = node_name (Suc k)"
    by (simp_all add: last_map)
  show ?thesis
    unfolding is_simple_path_def path_through_def
    using e d sub hl by simp
qed

lemma path_through_inj: "inj_on (path_through k) (Pow {1..k})"
proof (rule inj_onI)
  fix S T assume S: "S \<in> Pow {1..k}" and T: "T \<in> Pow {1..k}"
    and eq: "path_through k S = path_through k T"
  have fS: "finite S" and fT: "finite T" using S T by (auto intro: finite_subset)
  from eq have "map node_name (sorted_list_of_set S) = map node_name (sorted_list_of_set T)"
    by (simp add: path_through_def)
  hence "sorted_list_of_set S = sorted_list_of_set T"
    using inj_node_name by (simp add: inj_map_eq_map)
  hence "set (sorted_list_of_set S) = set (sorted_list_of_set T)" by simp
  thus "S = T" using fS fT by simp
qed

lemma dense_paths_examined: "2 ^ k \<le> paths_examined (built_graph (dense_schedule k))"
proof -
  let ?G = "built_graph (dense_schedule k)"
  have "path_through k ` Pow {1..k} \<subseteq> source_sink_paths ?G"
  proof
    fix p assume "p \<in> path_through k ` Pow {1..k}"
    then obtain S where "S \<subseteq> {1..k}" "p = path_through k S" by auto
    hence "is_simple_path ?G (node_name 0) (node_name (Suc k)) p"
      using path_through_simple by simp
    thus "p \<in> source_sink_paths ?G"
      unfolding source_sink_paths_def using dense_source[of k] dense_sink[of k] by blast
  qed
  moreover have fin: "finite (source_sink_paths ?G)"
    using set_candidate_paths[OF wf_built_graph, of "dense_schedule k", symmetric] by simp
  ultimately have "card (path_through k ` Pow {1..k}) \<le> card (source_sink_paths ?G)"
    by (intro card_mono)
  moreover have "card (path_through k ` Pow {1..k}) = 2 ^ k"
  proof -
    have "card (path_through k ` Pow {1..k}) = card (Pow {1..k})"
      by (rule card_image[OF path_through_inj])
    also have "\<dots> = 2 ^ card {1..k}" by (rule card_Pow) simp
    finally show ?thesis by simp
  qed
  moreover have "card (source_sink_paths ?G) \<le> paths_examined ?G"
    unfolding paths_examined_def set_candidate_paths[OF wf_built_graph, symmetric]
    by (rule card_length)
  ultimately show ?thesis by simp
qed


lemma dense_size:
  "length (nodes (built_graph (dense_schedule k))) + length (edges (built_graph (dense_schedule k)))
     \<le> (k + 2) + (k + 2) ^ 2"
proof -
  let ?G = "built_graph (dense_schedule k)"
  have n: "length (nodes ?G) = k + 2"
    using dense_node_ids[of k] by (metis length_map length_upt diff_zero node_ids_def)
  have "card (set (node_ids ?G)) = length (node_ids ?G)"
    using distinct_node_ids_built_graph[of "dense_schedule k"] by (rule distinct_card)
  hence "card (set (node_ids ?G)) = k + 2"
    using n by (simp add: node_ids_def)
  hence "card (set (node_ids ?G) \<times> set (node_ids ?G)) = (k + 2) ^ 2"
    by (simp add: card_cartesian_product power2_eq_square)
  moreover have "card (set (edges ?G)) \<le> card (set (node_ids ?G) \<times> set (node_ids ?G))"
    by (intro card_mono wf_graph_edges[OF wf_built_graph]) simp
  moreover have "length (edges ?G) = card (set (edges ?G))"
    using distinct_edges_built_graph[of "dense_schedule k"] by (simp add: distinct_card)
  ultimately show ?thesis using n by simp
qed

lemma exponential_beats_quadratic: "\<exists>k::nat. c * ((k + 2) + (k + 2) ^ 2) < 2 ^ k"
proof -
  define t where "t = 12 * c + 1"
  define m where "m = 12 * c"
  have tm: "t = m + 1" by (simp add: t_def m_def)
  have "3 * m + 2 \<le> 3 * t" by (simp add: tm)
  hence sq: "(3 * m + 2) ^ 2 \<le> (3 * t) ^ 2" by (rule power_mono) simp
  have "t \<le> t ^ 2" by (simp add: power2_eq_square t_def)
  hence "(3 * m + 2) + (3 * m + 2) ^ 2 \<le> 3 * t ^ 2 + 9 * t ^ 2"
    using sq \<open>3 * m + 2 \<le> 3 * t\<close> by (simp add: power_mult_distrib)
  hence "c * ((3 * m + 2) + (3 * m + 2) ^ 2) \<le> c * (12 * t ^ 2)"
    by (intro mult_le_mono2) simp
  also have "\<dots> = (12 * c) * t ^ 2" by simp
  also have "\<dots> < t * t ^ 2"
  proof (rule mult_strict_right_mono)
    show "12 * c < t" by (simp add: t_def)
    show "0 < t ^ 2" by (simp add: t_def)
  qed
  also have "\<dots> = t ^ 3" by (simp add: power3_eq_cube power2_eq_square)
  also have "\<dots> \<le> (2 ^ m) ^ 3"
  proof (rule power_mono)
    have "m < 2 ^ m" by (rule less_exp)
    thus "t \<le> 2 ^ m" unfolding tm by linarith
  qed simp
  also have "\<dots> = 2 ^ (3 * m)" by (simp add: power_mult mult.commute)
  finally show ?thesis by (intro exI[of _ "3 * m"])
qed

text \<open>
  Claim C2, amended. \<open>find_critical_path\<close> finds the longest path by going through the
  simple paths of every pair of a source and a sink and keeping the longest so far: on a
  graph with a source and a sink its result is the fold of \<open>longer_path\<close> over
  \<open>candidate_paths\<close>, and these are exactly the simple paths from a source to a sink. Their
  number is not bounded by the size of the graph: on the schedule \<open>dense_schedule k\<close>, which
  has \<open>k + 2\<close> activities, the innermost loop runs at least \<open>2 ^ k\<close> times.
\<close>
theorem find_critical_path_enumerates_simple_paths:
  "(sources (built_graph schedule) \<noteq> [] \<and> sinks (built_graph schedule) \<noteq> [] \<longrightarrow>
      find_critical_path (built schedule) =
        (let r = fold (longer_path (built schedule)) (candidate_paths (built_graph schedule)) ([], 0)
         in Inr \<lparr>path_activities = fst r, total_duration_days = snd r,
                 bottleneck_activity = find_bottleneck (built schedule) (fst r),
                 path_risk_level = assess_path_risk (built schedule) (fst r)\<rparr>))
   \<and> set (candidate_paths (built_graph schedule)) = source_sink_paths (built_graph schedule)
   \<and> length (nodes (built_graph (dense_schedule k))) = k + 2
   \<and> 2 ^ k \<le> paths_examined (built_graph (dense_schedule k))"
proof -
  have "length (nodes (built_graph (dense_schedule k))) = k + 2"
    using dense_node_ids[of k] by (metis length_map length_upt diff_zero node_ids_def)
  thus ?thesis
    using find_critical_path_main[of schedule] set_candidate_paths[OF wf_built_graph, of schedule]
      dense_paths_examined[of k]
    by blast
qed

theorem find_critical_path_enumerates_simple_paths_witness:
  "sources (built_graph (dense_schedule 2)) \<noteq> []
   \<and> sinks (built_graph (dense_schedule 2)) \<noteq> []
   \<and> length (nodes (built_graph (dense_schedule 2))) = 4
   \<and> paths_examined (built_graph (dense_schedule 2)) = 4
   \<and> find_critical_path (built (dense_schedule 2)) =
       Inr \<lparr>path_activities = [''a'', ''aa'', ''aaa'', ''aaaa''], total_duration_days = 4,
            bottleneck_activity = Some ''a'', path_risk_level = LOW\<rparr>"
proof -
  have s1: "sources (built_graph (dense_schedule 2)) \<noteq> []" by code_simp
  have s2: "sinks (built_graph (dense_schedule 2)) \<noteq> []" by code_simp
  have p: "paths_examined (built_graph (dense_schedule 2)) \<le> 4" by code_simp
  have r: "(let r = fold (longer_path (built (dense_schedule 2)))
                   (candidate_paths (built_graph (dense_schedule 2))) ([], 0)
         in Inr \<lparr>path_activities = fst r, total_duration_days = snd r,
                 bottleneck_activity = find_bottleneck (built (dense_schedule 2)) (fst r),
                 path_risk_level = assess_path_risk (built (dense_schedule 2)) (fst r)\<rparr>)
       = (Inr \<lparr>path_activities = [''a'', ''aa'', ''aaa'', ''aaaa''], total_duration_days = 4,
            bottleneck_activity = Some ''a'', path_risk_level = LOW\<rparr> :: error + CriticalPathInfo)"
    by code_simp
  note t = find_critical_path_enumerates_simple_paths[of "dense_schedule 2" 2]
  from t have "length (nodes (built_graph (dense_schedule 2))) = 4"
    and "4 \<le> paths_examined (built_graph (dense_schedule 2))" by simp_all
  moreover from t s1 s2 r have "find_critical_path (built (dense_schedule 2)) =
       Inr \<lparr>path_activities = [''a'', ''aa'', ''aaa'', ''aaaa''], total_duration_days = 4,
            bottleneck_activity = Some ''a'', path_risk_level = LOW\<rparr>" by simp
  ultimately show ?thesis using s1 s2 p by simp
qed

theorem find_critical_path_not_linear_counterexample:
  "\<not> (\<exists>c. \<forall>schedule.
        paths_examined (built_graph schedule)
          \<le> c * (length (nodes (built_graph schedule)) + length (edges (built_graph schedule))))"
proof
  assume "\<exists>c. \<forall>schedule.
        paths_examined (built_graph schedule)
          \<le> c * (length (nodes (built_graph schedule)) + length (edges (built_graph schedule)))"
  then obtain c where c: "\<And>schedule. paths_examined (built_graph schedule)
          \<le> c * (length (nodes (built_graph schedule)) + length (edges (built_graph schedule)))"
    by blast
  obtain k :: nat where k: "c * ((k + 2) + (k + 2) ^ 2) < 2 ^ k"
    using exponential_beats_quadratic by blast
  have "2 ^ k \<le> paths_examined (built_graph (dense_schedule k))" by (rule dense_paths_examined)
  also have "\<dots> \<le> c * (length (nodes (built_graph (dense_schedule k)))
      + length (edges (built_graph (dense_schedule k))))" by (rule c)
  also have "\<dots> \<le> c * ((k + 2) + (k + 2) ^ 2)"
    by (intro mult_le_mono2 dense_size)
  finally show False using k by simp
qed


end
